theory Spec2Isabelle
  imports Main "HOL-Library.Word"
begin

unbundle bit_operations_syntax

section \<open>Page-metadata placement (ch05, Listing 5.3)\<close>

text \<open>
  Error codes pushed onto the diagnostic channel by the functions modelled here.
\<close>

datatype errno = ERANGE | EINVAL

text \<open>
  \<^verbatim>\<open>#define PAGES_IN_METADATA_PAGE (1024 * 1024)\<close>. The page size (8192) and the size of
  \<^verbatim>\<open>page_metadata_t\<close> (a union padded to \<^verbatim>\<open>char[16]\<close>) are the values of the headers.
\<close>

definition PAGES_IN_METADATA_PAGE :: "64 word" where
  "PAGES_IN_METADATA_PAGE = 1024 * 1024"

definition PAGE_SIZE :: "64 word" where
  "PAGE_SIZE = 8192"

definition sizeof_page_metadata_t :: "64 word" where
  "sizeof_page_metadata_t = 16"

text \<open>
  \<^verbatim>\<open>get_metadata_page_offset(total_number_of_pages, page_num, &metadata_page_num, &metadata_index)\<close>:
  \<open>Inl ERANGE\<close> is the \<^verbatim>\<open>push_error(ERANGE, ...); return false\<close> exit, \<open>Inr\<close> carries the
  two out-parameters. All arithmetic is \<^verbatim>\<open>uint64_t\<close>.
\<close>

definition get_metadata_page_offset ::
  "64 word \<Rightarrow> 64 word \<Rightarrow> errno + (64 word \<times> 64 word)" where
  "get_metadata_page_offset total_number_of_pages page_num =
    (if page_num \<ge> total_number_of_pages then Inl ERANGE
     else
       let metadata_page_end = page_num +
             (PAGES_IN_METADATA_PAGE - (page_num mod PAGES_IN_METADATA_PAGE));
           (section_size_bytes, metadata_page_start) =
             (if metadata_page_end < total_number_of_pages
              then (PAGES_IN_METADATA_PAGE * sizeof_page_metadata_t, metadata_page_end)
              else
                let remaining_pages_for_last_section =
                      total_number_of_pages mod PAGES_IN_METADATA_PAGE
                in (remaining_pages_for_last_section * sizeof_page_metadata_t,
                    total_number_of_pages));
           section_size_pages = section_size_bytes div PAGE_SIZE +
             (if section_size_bytes mod PAGE_SIZE \<noteq> 0 then 1 else 0);
           metadata_page_start = metadata_page_start - section_size_pages;
           index_of_metadata_in_section = page_num mod PAGES_IN_METADATA_PAGE;
           index_of_page_in_section =
             index_of_metadata_in_section div (PAGE_SIZE div sizeof_page_metadata_t)
       in Inr (metadata_page_start + index_of_page_in_section,
               index_of_metadata_in_section mod (PAGE_SIZE div sizeof_page_metadata_t)))"

section \<open>Page metadata records and the transaction view (ch05, Listings 5.4 to 5.8)\<close>

text \<open>
  \<^verbatim>\<open>page_metadata_t\<close>: a 16-byte union whose named part is \<^verbatim>\<open>uint32_t overflow_size\<close> and
  \<^verbatim>\<open>char flags\<close>; the rest is padding. \<^verbatim>\<open>enum page_flags\<close> is packed into one byte.
\<close>

record page_metadata_t =
  overflow_size :: "32 word"
  flags :: "8 word"

definition page_free :: "8 word" where "page_free = 0"
definition page_single :: "8 word" where "page_single = 1"
definition page_overflow_first :: "8 word" where "page_overflow_first = 2"
definition page_overflow_rest :: "8 word" where "page_overflow_rest = 4"
definition page_metadata :: "8 word" where "page_metadata = 8"

text \<open>\<^verbatim>\<open>memset(metadata, 0, sizeof(page_metadata_t))\<close>.\<close>

definition zero_metadata :: page_metadata_t where
  "zero_metadata = \<lparr>overflow_size = 0, flags = 0\<rparr>"

text \<open>
  What a writing transaction sees: the page count of the header, the metadata records as
  they sit in the metadata pages (addressed by metadata page number and slot, the two
  results of \<open>get_metadata_page_offset\<close>), and the free-space bitmap (one busy flag per
  page).
\<close>

record txn =
  number_of_pages :: "64 word"
  metadata :: "64 word \<times> 64 word \<Rightarrow> page_metadata_t"
  busy :: "64 word \<Rightarrow> bool"

text \<open>
  Modelled from the spec: \<^verbatim>\<open>get_page\<close> and \<^verbatim>\<open>modify_page\<close> are shown in Listing 5.8
  only by the lines the chapter adds; their bodies are elided (``no further changes''). The
  spec says \<^verbatim>\<open>get_page\<close> validates \<^verbatim>\<open>page_num < number_of_pages\<close> and that
  \<^verbatim>\<open>modify_page\<close> hands out a writable copy of the page; here both succeed exactly for
  the pages of the file, and the writable copy is the transaction view itself.
\<close>

definition get_page :: "txn \<Rightarrow> 64 word \<Rightarrow> errno option" where
  "get_page tx page_num =
     (if page_num < number_of_pages tx then None else Some ERANGE)"

definition modify_page :: "txn \<Rightarrow> 64 word \<Rightarrow> errno option" where
  "modify_page tx page_num =
     (if page_num < number_of_pages tx then None else Some ERANGE)"

text \<open>
  \<^verbatim>\<open>modify_page_metadata\<close> (Listing 5.6): both \<^verbatim>\<open>pass(..., EINVAL, ...)\<close> exits push
  \<^verbatim>\<open>EINVAL\<close>; on success the out-parameter points at slot \<^verbatim>\<open>metadata_index\<close> of the
  metadata page.
\<close>

definition modify_page_metadata :: "txn \<Rightarrow> 64 word \<Rightarrow> errno + (64 word \<times> 64 word)" where
  "modify_page_metadata tx page_num =
    (case get_metadata_page_offset (number_of_pages tx) page_num of
       Inl e \<Rightarrow> Inl EINVAL
     | Inr (metadata_page_num, metadata_index) \<Rightarrow>
         (case modify_page tx metadata_page_num of
            Some e \<Rightarrow> Inl EINVAL
          | None \<Rightarrow> Inr (metadata_page_num, metadata_index)))"

text \<open>
  \<^verbatim>\<open>get_page_metadata\<close>: ``almost identical, but calls \<^verbatim>\<open>get_page\<close> instead of
  \<^verbatim>\<open>modify_page\<close>''; the result is the record read through the pointer.
\<close>

definition get_page_metadata :: "txn \<Rightarrow> 64 word \<Rightarrow> errno + page_metadata_t" where
  "get_page_metadata tx page_num =
    (case get_metadata_page_offset (number_of_pages tx) page_num of
       Inl e \<Rightarrow> Inl EINVAL
     | Inr (metadata_page_num, metadata_index) \<Rightarrow>
         (case get_page tx metadata_page_num of
            Some e \<Rightarrow> Inl EINVAL
          | None \<Rightarrow> Inr (metadata tx (metadata_page_num, metadata_index))))"

text \<open>
  Modelled from the spec: \<^verbatim>\<open>mark_page_as_busy\<close> belongs to the previous chapter and is
  not in the listing; the spec says it sets the page's bit in the bitmap.
\<close>

definition mark_page_as_busy :: "txn \<Rightarrow> 64 word \<Rightarrow> errno option \<times> txn" where
  "mark_page_as_busy tx page_num = (None, tx\<lparr>busy := (busy tx)(page_num := True)\<rparr>)"

lemma loop_counter_step:
  fixes j n :: "64 word"
  assumes "j < n"
  shows "unat n - unat (j + 1) < unat n - unat j"
proof -
  have "unat j < unat n" using assms by (simp add: word_less_nat_alt)
  moreover have "j \<noteq> - 1"
    using assms by (metis word_order.extremum_strict)
  then have "unat (j + 1) = Suc (unat j)"
    by (metis add.commute add_eq_0_iff2 unatSuc)
  ultimately show ?thesis by simp
qed

text \<open>
  The loop of \<^verbatim>\<open>allocate_page\<close> (Listing 5.7),
  \<^verbatim>\<open>for (size_t j = 0; j < required_size; j++)\<close>, as a recursion on \<open>j\<close>. The result is the
  error of the failing \<^verbatim>\<open>pass\<close> (if any) and the transaction view as the loop left it.
  \<^verbatim>\<open>page->overflow_size - j * PAGE_SIZE\<close> is computed in \<^verbatim>\<open>size_t\<close> and stored into the
  \<^verbatim>\<open>uint32_t\<close> field.
\<close>

function allocate_page_loop ::
  "64 word \<Rightarrow> 64 word \<Rightarrow> 32 word \<Rightarrow> 64 word \<Rightarrow> txn \<Rightarrow> errno option \<times> txn" where
  "allocate_page_loop pos required_size page_overflow_size j tx =
    (if j < required_size then
       (case mark_page_as_busy tx (pos + j) of
          (Some e, tx) \<Rightarrow> (Some EINVAL, tx)
        | (None, tx) \<Rightarrow>
            (case modify_page_metadata tx (pos + j) of
               Inl e \<Rightarrow> (Some EINVAL, tx)
             | Inr slot \<Rightarrow>
                 let md = zero_metadata;
                     md = (if required_size = 1 then md\<lparr>flags := page_single\<rparr>
                           else if j = 0
                           then md\<lparr>flags := page_overflow_first,
                                   overflow_size := page_overflow_size\<rparr>
                           else md\<lparr>flags := page_overflow_rest,
                                   overflow_size :=
                                     ucast (ucast page_overflow_size - j * PAGE_SIZE :: 64 word)\<rparr>)
                 in allocate_page_loop pos required_size page_overflow_size (j + 1)
                      (tx\<lparr>metadata := (metadata tx)(slot := md)\<rparr>)))
     else (None, tx))"
  by pat_completeness auto

termination
  by (relation "measure (\<lambda>(pos, required_size, ovf, j, tx). unat required_size - unat j)")
     (simp_all add: loop_counter_step)

declare allocate_page_loop.simps [simp del]

text \<open>
  \<^verbatim>\<open>free_page\<close> (Listing 5.8): look the record up with modify intent and zero it;
  \<^verbatim>\<open>pass\<close> without a code hands on the callee's error. The listing then elides the body
  the function had before (``no further changes''), which is not part of the sources: it
  is the parameter \<open>rest\<close>, run on the transaction view as the \<^verbatim>\<open>memset\<close> left it, and
  its verdict is the verdict of \<^verbatim>\<open>free_page\<close>.
\<close>

definition free_page ::
  "(txn \<Rightarrow> 64 word \<Rightarrow> errno option \<times> txn) \<Rightarrow> txn \<Rightarrow> 64 word \<Rightarrow> errno option \<times> txn" where
  "free_page rest tx page_num =
    (case modify_page_metadata tx page_num of
       Inl e \<Rightarrow> (Some e, tx)
     | Inr slot \<Rightarrow>
         let tx = tx\<lparr>metadata := (metadata tx)(slot := zero_metadata)\<rparr>
         in rest tx page_num)"

section \<open>Free-range search in the bitmap (src/bitmap.c)\<close>

text \<open>
  \<^verbatim>\<open>size_t\<close>, \<^verbatim>\<open>uint64_t\<close> and \<^verbatim>\<open>unsigned long\<close> are 64-bit words; the additions marked
  ``intentionally overflowing'' in the source wrap around, as \<open>+\<close> on words does.
\<close>

record selected_range =
  position :: "64 word"
  size_available :: "64 word"

record range_finder =
  bitmap :: "64 word list"
  bitmap_size :: "64 word"
  size_required :: "64 word"
  index :: "64 word"
  selection :: selected_range
  current :: "64 word"
  current_set_bit :: "64 word"
  previous_set_bit :: "64 word"

definition ULONG_MAX :: "64 word" where
  "ULONG_MAX = - 1"

definition SIZE_MAX :: "64 word" where
  "SIZE_MAX = - 1"

definition MAX_DISTANCE_TO_SEARCH_BEST_MATCH :: "64 word" where
  "MAX_DISTANCE_TO_SEARCH_BEST_MATCH = 64"

text \<open>
  \<^verbatim>\<open>__builtin_ctzl\<close>: the number of trailing zero bits, that is the index of the lowest set
  bit. The source only calls it on a non-zero word.
\<close>

definition ctzl :: "64 word \<Rightarrow> nat" where
  "ctzl w = length (takeWhile (\<lambda>n. \<not> bit w n) [0..<64])"

definition handle_zero_word :: "range_finder \<Rightarrow> bool \<times> range_finder" where
  "handle_zero_word rng =
    (let rng = rng\<lparr>current_set_bit := (index rng + 1) * 64\<rparr>
     in if current_set_bit rng > previous_set_bit rng + size_required rng
        then
          let rng = rng\<lparr>selection :=
                (selection rng)\<lparr>position := previous_set_bit rng + 1\<rparr>\<rparr>;
              rng = rng\<lparr>selection :=
                (selection rng)\<lparr>size_available :=
                   current_set_bit rng - position (selection rng)\<rparr>\<rparr>
          in (True, rng)
        else (False, rng))"

text \<open>
  The \<^verbatim>\<open>while (bitset != 0)\<close> loop of \<^verbatim>\<open>find_range_once\<close>; \<^verbatim>\<open>bitset ^= (bitset & -bitset)\<close>
  removes the lowest set bit, so the word decreases and the loop ends.
\<close>

lemma clear_lowest_less:
  fixes bitset :: "64 word"
  assumes "bitset \<noteq> 0"
  shows "bitset XOR (bitset AND - bitset) < bitset"
  by (metis (no_types, lifting) add_eq_0_iff and.idem assms
    bit.conj_xor_distrib disjunctive_add_eq_xor linorder_less_linear
    verit_comp_simplify1(3) word_and_le2 xor.assoc xor.right_neutral
    xor_self_eq)

function find_range_once_loop :: "64 word \<Rightarrow> range_finder \<Rightarrow> bool \<times> range_finder" where
  "find_range_once_loop bitset rng =
    (if bitset \<noteq> 0 then
       let r = ctzl bitset;
           rng = rng\<lparr>current_set_bit := index rng * 64 + of_nat r\<rparr>
       in if current_set_bit rng > previous_set_bit rng + size_required rng
          then
            let rng = rng\<lparr>selection :=
                  (selection rng)\<lparr>position := previous_set_bit rng + 1\<rparr>\<rparr>;
                rng = rng\<lparr>selection :=
                  (selection rng)\<lparr>size_available :=
                     current_set_bit rng - position (selection rng)\<rparr>\<rparr>;
                rng = rng\<lparr>previous_set_bit := current_set_bit rng\<rparr>
            in (True, rng)
          else find_range_once_loop (bitset XOR (bitset AND - bitset))
                 (rng\<lparr>previous_set_bit := current_set_bit rng\<rparr>)
     else handle_zero_word rng)"
  by pat_completeness auto
termination
  by (relation "measure (\<lambda>(bitset, rng). unat bitset)")
     (auto simp: clear_lowest_less unat_mono)

declare find_range_once_loop.simps [simp del]

definition find_range_once :: "range_finder \<Rightarrow> bool \<times> range_finder" where
  "find_range_once rng =
    (let bitset = current rng
     in if bitset = ULONG_MAX
        then (False, rng\<lparr>previous_set_bit := (index rng + 1) * 64 - 1\<rparr>)
        else if bitset = 0 then handle_zero_word rng
        else find_range_once_loop bitset rng)"

text \<open>
  \<^verbatim>\<open>init_range\<close> writes six fields of the caller's struct and leaves \<^verbatim>\<open>selection\<close> and
  \<^verbatim>\<open>current_set_bit\<close> as they were.
\<close>

definition init_range ::
  "64 word list \<Rightarrow> 64 word \<Rightarrow> 64 word \<Rightarrow> range_finder \<Rightarrow> range_finder" where
  "init_range bm bm_size sz_required rng =
     rng\<lparr>bitmap := bm, bitmap_size := bm_size, size_required := sz_required,
         current := bm ! 0, previous_set_bit := ULONG_MAX, index := 0\<rparr>"

lemma handle_zero_word_frame:
  "index (snd (handle_zero_word rng)) = index rng"
  "bitmap_size (snd (handle_zero_word rng)) = bitmap_size rng"
  by (simp_all add: handle_zero_word_def Let_def)

lemma find_range_once_loop_frame:
  "index (snd (find_range_once_loop bitset rng)) = index rng \<and>
   bitmap_size (snd (find_range_once_loop bitset rng)) = bitmap_size rng"
proof (induction bitset rng rule: find_range_once_loop.induct)
  case (1 bitset rng)
  show ?case
    using "1.IH"
    by (subst (1 2) find_range_once_loop.simps)
       (simp add: Let_def handle_zero_word_frame)
qed

lemma find_range_once_frame:
  "index (snd (find_range_once rng)) = index rng"
  "bitmap_size (snd (find_range_once rng)) = bitmap_size rng"
  by (simp_all add: find_range_once_def Let_def handle_zero_word_frame
        find_range_once_loop_frame)

text \<open>
  The \<^verbatim>\<open>do { ... } while (true)\<close> loop of \<^verbatim>\<open>find_next_range\<close>: \<^verbatim>\<open>continue\<close> and the fall
  through to the loop's end are the two recursive calls. Every iteration that does not
  return moves \<^verbatim>\<open>index\<close> one word closer to \<^verbatim>\<open>bitmap_size\<close>.
\<close>

definition scan_measure :: "range_finder \<Rightarrow> nat" where
  "scan_measure rng =
    (if index rng < bitmap_size rng then unat (bitmap_size rng) - unat (index rng)
     else if index rng = - 1 then Suc (unat (bitmap_size rng)) else 0)"

lemma scan_measure_step:
  assumes "i + 1 < (n :: 64 word)"
  shows "(if i + 1 < n then unat n - unat (i + 1) else if i + 1 = - 1 then Suc (unat n) else 0)
       < (if i < n then unat n - unat i else if i = - 1 then Suc (unat n) else 0)"
proof (cases "i = - 1")
  case True
  have "\<not> (- 1 :: 64 word) < n" by (simp add: not_less)
  with True show ?thesis by simp
next
  case False
  then have s: "unat (i + 1) = Suc (unat i)"
    by (metis add.commute add_eq_0_iff2 unatSuc)
  have "unat (i + 1) < unat n" using assms by (simp add: word_less_nat_alt)
  then have "i < n" using s by (simp add: word_less_nat_alt)
  then show ?thesis using assms s \<open>unat (i + 1) < unat n\<close> by simp
qed

lemma find_next_range_term_aux:
  assumes "find_range_once rng = (b, y)" "index y + 1 < bitmap_size y"
  shows "scan_measure (y\<lparr>index := index y + 1, current := c\<rparr>) < scan_measure rng"
proof -
  have "index y = index rng" "bitmap_size y = bitmap_size rng"
    using find_range_once_frame[of rng] assms(1) by simp_all
  with assms(2) show ?thesis
    using scan_measure_step[of "index rng" "bitmap_size rng"]
    by (simp add: scan_measure_def)
qed

lemma find_next_range_term_aux2:
  assumes "(b, y) = find_range_once rng"
    "\<not> bitmap_size (y\<lparr>index := index y + 1\<rparr>) \<le> index (y\<lparr>index := index y + 1\<rparr>)"
  shows "scan_measure (y\<lparr>index := index y + 1, current := c\<rparr>) < scan_measure rng"
  using find_next_range_term_aux[OF assms(1)[symmetric], of c] assms(2) by (simp add: not_le)

function find_next_range :: "range_finder \<Rightarrow> bool \<times> range_finder" where
  "find_next_range rng =
    (case find_range_once rng of
       (True, rng) \<Rightarrow>
         if current_set_bit rng mod 64 \<noteq> 0
         then
           let mask = NOT (push_bit (unat (current_set_bit rng mod 64)) ULONG_MAX)
           in (True, rng\<lparr>current := current rng OR mask\<rparr>)
         else if index rng + 1 < bitmap_size rng
         then find_next_range
                (rng\<lparr>index := index rng + 1,
                     current := bitmap rng ! unat (index rng + 1)\<rparr>)
         else (True, rng\<lparr>current := ULONG_MAX\<rparr>)
     | (False, rng) \<Rightarrow>
         let rng = rng\<lparr>index := index rng + 1\<rparr>
         in if index rng \<ge> bitmap_size rng then (False, rng)
            else find_next_range (rng\<lparr>current := bitmap rng ! unat (index rng)\<rparr>))"
  by pat_completeness auto

termination
  apply (relation "measure scan_measure")
  subgoal by simp
  subgoal for rng x y
    apply (simp only: in_measure)
    apply (rule find_next_range_term_aux[of rng True y])
     apply (rule sym, assumption)
    apply assumption
    done
  subgoal for rng x y xa
    apply (simp only: in_measure)
    apply (rule find_next_range_term_aux2[of False y rng])
     apply assumption
    apply assumption
    done
  done

declare find_next_range.simps [simp del]

text \<open>
  The \<^verbatim>\<open>while (find_next_range(range))\<close> loop of \<^verbatim>\<open>find_smallest_nearby_range\<close>, with the
  local \<^verbatim>\<open>current\<close> (here \<open>cur\<close>) and \<^verbatim>\<open>boundary\<close> as arguments. The source gives no bound
  on the number of iterations, so the loop is a partial function: \<open>None\<close> stands for a
  call that does not return.
\<close>

partial_function (option) find_smallest_nearby_range_loop ::
  "selected_range \<Rightarrow> 64 word \<Rightarrow> bool \<Rightarrow> range_finder \<Rightarrow> (bool \<times> range_finder) option" where
  "find_smallest_nearby_range_loop cur boundary search_nearby rng =
    (case find_next_range rng of
       (found, rng) \<Rightarrow>
         if found then
           if size_required rng = size_available (selection rng) then Some (True, rng)
           else
             let cur = (if size_available cur > size_available (selection rng)
                        then selection rng else cur)
             in if search_nearby \<and> position (selection rng) > boundary
                then Some (True,
                       if size_available cur < size_available (selection rng)
                       then rng\<lparr>selection := cur\<rparr> else rng)
                else find_smallest_nearby_range_loop cur boundary search_nearby rng
         else Some (size_available cur \<noteq> SIZE_MAX, rng\<lparr>selection := cur\<rparr>))"

declare find_smallest_nearby_range_loop.simps [code]

definition find_smallest_nearby_range ::
  "range_finder \<Rightarrow> bool \<Rightarrow> (bool \<times> range_finder) option" where
  "find_smallest_nearby_range rng search_nearby =
    (let cur = \<lparr>position = 0, size_available = SIZE_MAX\<rparr>;
         boundary = MAX_DISTANCE_TO_SEARCH_BEST_MATCH + size_required rng
     in find_smallest_nearby_range_loop cur boundary search_nearby rng)"

text \<open>
  The same loop with one more result: the list of the candidates that \<^verbatim>\<open>find_next_range\<close>
  handed to the loop body, in the order of the scan. It is used to state which of the
  tracked candidates the loop returns.
\<close>

partial_function (option) find_smallest_nearby_range_seen_loop ::
  "selected_range list \<Rightarrow> selected_range \<Rightarrow> 64 word \<Rightarrow> bool \<Rightarrow> range_finder \<Rightarrow>
   (bool \<times> range_finder \<times> selected_range list) option" where
  "find_smallest_nearby_range_seen_loop seen cur boundary search_nearby rng =
    (case find_next_range rng of
       (found, rng) \<Rightarrow>
         if found then
           let seen = seen @ [selection rng]
           in if size_required rng = size_available (selection rng)
              then Some (True, rng, seen)
              else
                let cur = (if size_available cur > size_available (selection rng)
                           then selection rng else cur)
                in if search_nearby \<and> position (selection rng) > boundary
                   then Some (True,
                          if size_available cur < size_available (selection rng)
                          then rng\<lparr>selection := cur\<rparr> else rng, seen)
                   else find_smallest_nearby_range_seen_loop seen cur boundary search_nearby rng
         else Some (size_available cur \<noteq> SIZE_MAX, rng\<lparr>selection := cur\<rparr>, seen))"

declare find_smallest_nearby_range_seen_loop.simps [code]

definition find_smallest_nearby_range_seen ::
  "range_finder \<Rightarrow> bool \<Rightarrow> (bool \<times> range_finder \<times> selected_range list) option" where
  "find_smallest_nearby_range_seen rng search_nearby =
    (let cur = \<lparr>position = 0, size_available = SIZE_MAX\<rparr>;
         boundary = MAX_DISTANCE_TO_SEARCH_BEST_MATCH + size_required rng
     in find_smallest_nearby_range_seen_loop [] cur boundary search_nearby rng)"

text \<open>
  \<^verbatim>\<open>struct range_finder range;\<close> is declared without an initialiser. The fields that
  \<^verbatim>\<open>init_range\<close> does not write are written by the scan before they are read; they start
  here as zero.
\<close>

definition range_uninit :: range_finder where
  "range_uninit = \<lparr>bitmap = [], bitmap_size = 0, size_required = 0, index = 0,
     selection = \<lparr>position = 0, size_available = 0\<rparr>, current = 0,
     current_set_bit = 0, previous_set_bit = 0\<rparr>"

text \<open>
  \<^verbatim>\<open>find_free_range_in_bitmap\<close>: \<open>Some (Some p)\<close> is \<^verbatim>\<open>return true\<close> with \<^verbatim>\<open>*bit_pos = p\<close>,
  \<open>Some None\<close> is \<^verbatim>\<open>return false\<close>, \<open>None\<close> is a call that does not return.
  \<^verbatim>\<open>bitmap + high\<close> is the list without its first \<open>high\<close> words.
\<close>

definition find_free_range_in_bitmap ::
  "64 word list \<Rightarrow> 64 word \<Rightarrow> 64 word \<Rightarrow> 64 word \<Rightarrow> 64 word option option" where
  "find_free_range_in_bitmap bm bm_size sz_required near_pos =
    (if sz_required = 0 \<or> near_pos div 64 \<ge> bm_size then Some None
     else
       let high = near_pos div 64;
           rng = init_range (drop (unat high) bm) (bm_size - high) sz_required range_uninit
       in case find_smallest_nearby_range rng (high \<noteq> 0) of
            None \<Rightarrow> None
          | Some (True, rng) \<Rightarrow> Some (Some (position (selection rng) + high * 64))
          | Some (False, rng) \<Rightarrow>
              if high = 0 then Some None
              else
                let rng = init_range bm high sz_required rng
                in case find_next_range rng of
                     (True, rng) \<Rightarrow> Some (Some (position (selection rng)))
                   | (False, rng) \<Rightarrow> Some None)"

text \<open>The bit of page \<open>p\<close> in the bitmap: bit \<open>p mod 64\<close> of word \<open>p div 64\<close>.\<close>

definition bitmap_bit :: "64 word list \<Rightarrow> nat \<Rightarrow> bool" where
  "bitmap_bit bm p = bit (bm ! (p div 64)) (p mod 64)"

section \<open>The diagnostic error channel (ch01, Listings 1.4 to 1.6)\<close>

text \<open>
  The thread-local state of the channel. The arrays have \<^verbatim>\<open>MAX_ERRORS\<close> entries; a message
  pointer is the offset of the message in \<^verbatim>\<open>_messages_buffer\<close>, and \<open>None\<close> is the null
  pointer. The text that \<^verbatim>\<open>snprintf\<close> writes is not modelled, only the lengths it returns.
\<close>

definition MAX_ERRORS :: "64 word" where
  "MAX_ERRORS = 64"

definition MAX_ERRORS_MSG_BUFFER :: "64 word" where
  "MAX_ERRORS_MSG_BUFFER = 2048"

record error_channel =
  errors_messages_buffer :: "64 word option list"
  errors_messages_codes :: "32 word list"
  errors_count :: "64 word"
  errors_buffer_len :: "64 word"
  out_of_memory :: "32 word"

text \<open>Thread-local statics start zeroed.\<close>

definition errors_init :: error_channel where
  "errors_init = \<lparr>errors_messages_buffer = replicate 64 None,
     errors_messages_codes = replicate 64 0,
     errors_count = 0, errors_buffer_len = 0, out_of_memory = 0\<rparr>"

text \<open>The \<^verbatim>\<open>oom:\<close> label of \<^verbatim>\<open>push_error_internal\<close>.\<close>

definition push_error_oom :: "64 word \<Rightarrow> error_channel \<Rightarrow> error_channel" where
  "push_error_oom idx ch =
     ch\<lparr>out_of_memory := out_of_memory ch OR 2,
        errors_messages_buffer := (errors_messages_buffer ch)[unat idx := None]\<rparr>"

text \<open>
  \<^verbatim>\<open>push_error_internal\<close>: \<open>hdr_chars\<close> is the sum of what the three header \<^verbatim>\<open>snprintf\<close>
  calls return, \<open>msg_chars\<close> what \<^verbatim>\<open>vsnprintf\<close> returns for the caller's format (both
  \<^verbatim>\<open>int\<close>); \<^verbatim>\<open>(size_t)chars\<close> is the sign-extending cast.
\<close>

definition push_error_internal ::
  "32 word \<Rightarrow> 32 word \<Rightarrow> 32 word \<Rightarrow> error_channel \<Rightarrow> error_channel" where
  "push_error_internal code hdr_chars msg_chars ch =
    (if errors_count ch + 1 \<ge> MAX_ERRORS
     then ch\<lparr>out_of_memory := out_of_memory ch OR 1\<rparr>
     else
       let idx = errors_count ch;
           ch = ch\<lparr>errors_count := idx + 1\<rparr>;
           ch = ch\<lparr>errors_messages_codes := (errors_messages_codes ch)[unat idx := code]\<rparr>;
           msg = errors_buffer_len ch;
           avail = MAX_ERRORS_MSG_BUFFER - errors_buffer_len ch;
           chars = hdr_chars
       in if (scast chars :: 64 word) = avail then push_error_oom idx ch
          else
            let chars = chars + msg_chars
            in if (scast chars :: 64 word) = avail then push_error_oom idx ch
               else ch\<lparr>errors_buffer_len := errors_buffer_len ch + scast chars + 1,
                       errors_messages_buffer :=
                         (errors_messages_buffer ch)[unat idx := Some msg]\<rparr>)"

section \<open>Closing a file (ch02, Listing 2.9)\<close>

record file_handle_t =
  fd :: "32 word"

text \<open>
  \<^verbatim>\<open>close_file\<close>: the handle is a pointer, \<open>None\<close> when it is null. \<open>sys_close\<close> stands for
  the \<^verbatim>\<open>close\<close> system call: \<open>Some e\<close> when it returns \<open>-1\<close> with \<^verbatim>\<open>errno\<close> \<open>e\<close>, \<open>None\<close>
  when it succeeds. \<open>fmt\<close> gives the lengths of the formatted error text. The result is the
  returned \<^verbatim>\<open>bool\<close> and the error channel; when \<^verbatim>\<open>close\<close> succeeds the function runs off its
  end without a \<^verbatim>\<open>return\<close>, and the returned value is \<open>None\<close>.
\<close>

definition close_file ::
  "(32 word \<Rightarrow> 32 word option) \<Rightarrow> 32 word \<times> 32 word \<Rightarrow> file_handle_t option \<Rightarrow>
   error_channel \<Rightarrow> bool option \<times> error_channel" where
  "close_file sys_close fmt handle ch =
    (case handle of
       None \<Rightarrow> (Some True, ch)
     | Some h \<Rightarrow>
         (case sys_close (fd h) of
            Some e \<Rightarrow> (Some False, push_error_internal e (fst fmt) (snd fmt) ch)
          | None \<Rightarrow> (None, ch)))"

section \<open>Auxiliary definitions for the statements\<close>

text \<open>
  The metadata lookup on natural numbers, for files whose length in bytes fits 64 bits:
  the number of pages of a metadata section that holds \<open>x\<close> records, the first page of the
  section that serves range \<open>q\<close> of a file of \<open>T\<close> pages (as the source computes it), and
  the slot of page \<open>P\<close>.
\<close>

definition section_pages_nat :: "nat \<Rightarrow> nat" where
  "section_pages_nat x = (x * 16) div 8192 + (if (x * 16) mod 8192 \<noteq> 0 then 1 else 0)"

definition meta_start_nat :: "nat \<Rightarrow> nat \<Rightarrow> nat" where
  "meta_start_nat T q =
     (if (q + 1) * 1048576 < T then (q + 1) * 1048576 - 2048
      else T - section_pages_nat (T mod 1048576))"

definition slot_nat :: "nat \<Rightarrow> nat \<Rightarrow> nat \<times> nat" where
  "slot_nat T P =
     (meta_start_nat T (P div 1048576) + P mod 1048576 div 512, P mod 1048576 mod 512)"

text \<open>The record that iteration \<open>j\<close> of the loop of \<^verbatim>\<open>allocate_page\<close> stores.\<close>

definition written_record :: "64 word \<Rightarrow> 32 word \<Rightarrow> 64 word \<Rightarrow> page_metadata_t" where
  "written_record required_size page_overflow_size j =
    (if required_size = 1 then \<lparr>overflow_size = 0, flags = page_single\<rparr>
     else if j = 0 then \<lparr>overflow_size = page_overflow_size, flags = page_overflow_first\<rparr>
     else \<lparr>overflow_size = ucast (ucast page_overflow_size - j * PAGE_SIZE :: 64 word),
           flags = page_overflow_rest\<rparr>)"

text \<open>
  A 16-page file on which nothing is allocated yet, and the same file after the loop of
  \<^verbatim>\<open>allocate_page\<close> has marked a value of 8193 bytes on pages 3 and 4.
\<close>

definition txn16 :: txn where
  "txn16 = \<lparr>number_of_pages = 16, metadata = (\<lambda>slot. zero_metadata), busy = (\<lambda>p. False)\<rparr>"

definition txn16_overflow :: txn where
  "txn16_overflow = snd (allocate_page_loop 3 2 8193 0 txn16)"

text \<open>
  Notions for stating what the scan tracks. \<open>next_free\<close> is the bit after
  \<^verbatim>\<open>previous_set_bit\<close>, where the next reported run starts. \<open>scan_valid\<close> says that the
  request is not empty, that the scan is inside the bitmap and that bit positions plus the
  requested size fit 64 bits. \<open>scan_inv L\<close> says that the next run starts at \<open>L\<close> or
  later, inside or right after the current word, and that the bits of the current word
  before it are (masked as) set. \<open>scan_final\<close> is the state after the last word.
\<close>

definition next_free :: "range_finder \<Rightarrow> nat" where
  "next_free rng = unat (previous_set_bit rng + 1)"

definition scan_valid :: "range_finder \<Rightarrow> bool" where
  "scan_valid rng \<longleftrightarrow>
     size_required rng \<noteq> 0 \<and> index rng < bitmap_size rng \<and>
     unat (bitmap_size rng) * 64 + unat (size_required rng) < 2 ^ 64"

definition scan_inv :: "nat \<Rightarrow> range_finder \<Rightarrow> bool" where
  "scan_inv L rng \<longleftrightarrow>
     L \<le> next_free rng \<and> next_free rng \<le> (unat (index rng) + 1) * 64 \<and>
     (\<forall>k. unat (index rng) * 64 + k < next_free rng \<longrightarrow> bit (current rng) k)"

definition scan_final :: "range_finder \<Rightarrow> bool" where
  "scan_final rng \<longleftrightarrow> current rng = ULONG_MAX \<and> bitmap_size rng \<le> index rng + 1"

definition same_params :: "range_finder \<Rightarrow> range_finder \<Rightarrow> bool" where
  "same_params rng rng' \<longleftrightarrow>
     bitmap rng' = bitmap rng \<and> bitmap_size rng' = bitmap_size rng \<and>
     size_required rng' = size_required rng \<and> index rng' = index rng \<and>
     current rng' = current rng"

text \<open>
  What one call of \<^verbatim>\<open>find_range_once\<close> establishes, from a state with \<open>scan_inv L\<close>: the
  result \<open>b\<close> and the state \<open>rng'\<close> it leaves.
\<close>

definition once_post :: "nat \<Rightarrow> range_finder \<Rightarrow> bool \<Rightarrow> range_finder \<Rightarrow> bool" where
  "once_post L rng b rng' \<longleftrightarrow>
     same_params rng rng' \<and>
     (\<not> b \<longrightarrow> L \<le> next_free rng' \<and> next_free rng' \<le> (unat (index rng) + 1) * 64) \<and>
     (b \<longrightarrow>
        (let p = unat (position (selection rng'));
             sz = unat (size_available (selection rng'));
             c = unat (current_set_bit rng')
         in L \<le> p \<and> unat (size_required rng) \<le> sz \<and> p + sz = c \<and>
            unat (index rng) * 64 \<le> c \<and> c \<le> (unat (index rng) + 1) * 64 \<and>
            (c mod 64 \<noteq> 0 \<longrightarrow> next_free rng' = c + 1 \<and> bit (current rng) (c mod 64)) \<and>
            (c mod 64 = 0 \<longrightarrow> p \<le> next_free rng' \<and>
                               next_free rng' \<le> (unat (index rng) + 1) * 64)))"

text \<open>
  The tracking step of \<^verbatim>\<open>find_smallest_nearby_range\<close>,
  \<^verbatim>\<open>if (current.size_available > range->selection.size_available) current = range->selection\<close>.
\<close>

definition track :: "selected_range \<Rightarrow> selected_range \<Rightarrow> selected_range" where
  "track cur c = (if size_available cur > size_available c then c else cur)"

text \<open>
  The candidates handed to the loop of \<^verbatim>\<open>find_smallest_nearby_range\<close>: if the ones seen
  so far lie before \<open>L\<close> in increasing position and are large enough, so are the ones in
  the result \<open>y\<close>, and the requested size is unchanged.
\<close>

definition candidates_ok ::
  "selected_range list \<Rightarrow> range_finder \<Rightarrow> bool \<times> range_finder \<times> selected_range list \<Rightarrow> bool"
  where
  "candidates_ok seen rng y \<longleftrightarrow>
     (\<forall>L. (scan_final rng \<or> scan_valid rng \<and> scan_inv L rng) \<longrightarrow>
          (\<forall>c\<in>set seen. unat (position c) < L \<and>
                 unat (size_required rng) \<le> unat (size_available c)) \<longrightarrow>
          sorted_wrt (\<lambda>a b. position a < position b) seen \<longrightarrow>
          size_required (fst (snd y)) = size_required rng \<and>
          sorted_wrt (\<lambda>a b. position a < position b) (snd (snd y)) \<and>
          (\<forall>c\<in>set (snd (snd y)). unat (size_required rng) \<le> unat (size_available c)))"

text \<open>
  How the loop ends, in terms of the candidates \<open>new\<close> it saw after \<open>seen\<close>: on an exact
  fit, on a candidate beyond the boundary, or at the end of the bitmap.
\<close>

definition loop_outcome ::
  "selected_range list \<Rightarrow> selected_range \<Rightarrow> 64 word \<Rightarrow> bool \<Rightarrow>
   bool \<times> range_finder \<times> selected_range list \<Rightarrow> bool" where
  "loop_outcome seen cur boundary sn y \<longleftrightarrow>
     (\<exists>new. snd (snd y) = seen @ new \<and>
        (new \<noteq> [] \<and> size_required (fst (snd y)) = size_available (last new)
         \<or> new \<noteq> [] \<and> sn \<and> boundary < position (last new) \<and>
           selection (fst (snd y)) =
             (if size_available (foldl track cur new) < size_available (last new)
              then foldl track cur new else last new)
         \<or> selection (fst (snd y)) = foldl track cur new \<and>
           fst y = (size_available (foldl track cur new) \<noteq> SIZE_MAX) \<and>
           (sn \<longrightarrow> (\<forall>c\<in>set new. \<not> boundary < position c))))"

section \<open>The metadata lookup is injective\<close>

lemmas metadata_consts =
  PAGES_IN_METADATA_PAGE_def PAGE_SIZE_def sizeof_page_metadata_t_def

lemma section_pages_nat_le: "section_pages_nat x \<le> x"
proof -
  define d e where "d = x div 512" and "e = x mod 512"
  have x: "x = d * 512 + e" and e: "e < 512" by (simp_all add: d_def e_def)
  have "(x * 16) div 8192 = d"
    unfolding x by (rule div_nat_eqI) (use e in simp_all)
  moreover have "(x * 16) mod 8192 = e * 16"
  proof -
    have "(x * 16) mod 8192 = (e * 16 + d * 8192) mod 8192"
      unfolding x by (simp add: algebra_simps)
    also have "\<dots> = e * 16" using e by simp
    finally show ?thesis .
  qed
  ultimately have "section_pages_nat x = d + (if e \<noteq> 0 then 1 else 0)"
    by (simp add: section_pages_nat_def)
  then show ?thesis using x by (cases "e = 0") simp_all
qed

lemma meta_start_nat_bounds:
  assumes "q * 1048576 < T"
  shows "(q + 1) * 1048576 < T \<Longrightarrow>
           meta_start_nat T q = q * 1048576 + 1046528"
    and "\<not> (q + 1) * 1048576 < T \<Longrightarrow> q * 1048576 \<le> meta_start_nat T q"
proof -
  show "(q + 1) * 1048576 < T \<Longrightarrow> meta_start_nat T q = q * 1048576 + 1046528"
    by (simp add: meta_start_nat_def)
  assume n: "\<not> (q + 1) * 1048576 < T"
  define rem where "rem = T mod 1048576"
  define tq where "tq = T div 1048576"
  have T: "T = tq * 1048576 + rem" and rem: "rem < 1048576"
    by (simp_all add: tq_def rem_def)
  have le: "section_pages_nat rem \<le> rem" by (rule section_pages_nat_le)
  have "q * 1048576 \<le> T - section_pages_nat rem"
  proof (cases "rem = 0")
    case True
    then have "section_pages_nat rem = 0" by (simp add: section_pages_nat_def)
    then show ?thesis using assms by simp
  next
    case False
    have "q \<le> tq"
    proof (rule ccontr)
      assume "\<not> q \<le> tq"
      then have "tq + 1 \<le> q" by simp
      then have "(tq + 1) * 1048576 \<le> q * 1048576" by (rule mult_le_mono1)
      then show False using assms T rem by simp
    qed
    then have "q * 1048576 \<le> tq * 1048576" by (rule mult_le_mono1)
    then show ?thesis using T le by simp
  qed
  then show "q * 1048576 \<le> meta_start_nat T q"
    using n by (simp add: meta_start_nat_def rem_def)
qed

lemma slot_nat_same_section:
  fixes P1 P2 :: nat
  assumes "P1 div 1048576 = P2 div 1048576" "slot_nat T P1 = slot_nat T P2"
  shows "P1 = P2"
proof -
  define r1 r2 where "r1 = P1 mod 1048576" and "r2 = P2 mod 1048576"
  have "r1 div 512 = r2 div 512" "r1 mod 512 = r2 mod 512"
    using assms by (simp_all add: slot_nat_def r1_def r2_def)
  then have "r1 = r2" by (metis div_mult_mod_eq)
  then show ?thesis
    using assms(1) unfolding r1_def r2_def by (metis div_mult_mod_eq)
qed

lemma slot_nat_full_range:
  assumes "(P div 1048576 + 1) * 1048576 < T"
  shows "fst (slot_nat T P) < (P div 1048576 + 1) * 1048576"
    and "P div 1048576 * 1048576 \<le> fst (slot_nat T P)"
proof -
  define q r where "q = P div 1048576" and "r = P mod 1048576"
  have r: "r < 1048576" by (simp add: r_def)
  then have d: "r div 512 < 2048" by (simp add: less_mult_imp_div_less)
  have "q * 1048576 < T" using assms by (simp add: q_def)
  then have st: "meta_start_nat T q = q * 1048576 + 1046528"
    using assms meta_start_nat_bounds(1)[of q T] by (simp add: q_def)
  show "fst (slot_nat T P) < (P div 1048576 + 1) * 1048576"
    using st d by (simp add: slot_nat_def q_def[symmetric] r_def[symmetric])
  show "P div 1048576 * 1048576 \<le> fst (slot_nat T P)"
    using st by (simp add: slot_nat_def q_def[symmetric] r_def[symmetric])
qed

lemma slot_nat_last_range:
  assumes "P < T" "\<not> (P div 1048576 + 1) * 1048576 < T"
  shows "P div 1048576 * 1048576 \<le> fst (slot_nat T P)"
proof -
  define q where "q = P div 1048576"
  have "q * 1048576 \<le> P" by (simp add: q_def)
  then have "q * 1048576 < T" using assms(1) by simp
  then have "q * 1048576 \<le> meta_start_nat T q"
    using assms(2) meta_start_nat_bounds(2)[of q T] by (simp add: q_def)
  then show ?thesis by (simp add: slot_nat_def q_def[symmetric])
qed

lemma last_range_unique:
  fixes P T :: nat
  assumes "P < T" "\<not> (P div 1048576 + 1) * 1048576 < T"
  shows "P div 1048576 = (T - 1) div 1048576"
proof (rule div_nat_eqI[symmetric])
  have "P div 1048576 * 1048576 \<le> P" by simp
  then show "1048576 * (P div 1048576) \<le> T - 1" using assms(1) by simp
  show "T - 1 < 1048576 * Suc (P div 1048576)" using assms by simp
qed

lemma slot_nat_inj:
  assumes "P1 < T" "P2 < T" "slot_nat T P1 = slot_nat T P2"
  shows "P1 = P2"
proof -
  define q1 q2 where "q1 = P1 div 1048576" and "q2 = P2 div 1048576"
  have "q1 = q2"
  proof (cases "(q1 + 1) * 1048576 < T")
    case f1: True
    show ?thesis
    proof (cases "(q2 + 1) * 1048576 < T")
      case f2: True
      have "q1 * 1048576 \<le> fst (slot_nat T P1)" "fst (slot_nat T P1) < (q1 + 1) * 1048576"
           "q2 * 1048576 \<le> fst (slot_nat T P2)" "fst (slot_nat T P2) < (q2 + 1) * 1048576"
        using f1 f2 slot_nat_full_range[of P1 T] slot_nat_full_range[of P2 T]
        by (simp_all add: q1_def q2_def)
      then have "q1 * 1048576 < (q2 + 1) * 1048576" "q2 * 1048576 < (q1 + 1) * 1048576"
        using assms(3) by simp_all
      then have "q1 < q2 + 1" "q2 < q1 + 1" by simp_all
      then show ?thesis by simp
    next
      case l2: False
      have a: "fst (slot_nat T P1) < (q1 + 1) * 1048576"
        using f1 slot_nat_full_range(1)[of P1 T] by (simp add: q1_def)
      have b: "q2 * 1048576 \<le> fst (slot_nat T P2)"
        using l2 assms(2) slot_nat_last_range[of P2 T] by (simp add: q2_def)
      have "(q1 + 1) * 1048576 < (q2 + 1) * 1048576" using f1 l2 by simp
      then have "q1 + 1 \<le> q2" by simp
      then have "(q1 + 1) * 1048576 \<le> q2 * 1048576" by (rule mult_le_mono1)
      then show ?thesis using a b assms(3) by simp
    qed
  next
    case l1: False
    show ?thesis
    proof (cases "(q2 + 1) * 1048576 < T")
      case f2: True
      have a: "fst (slot_nat T P2) < (q2 + 1) * 1048576"
        using f2 slot_nat_full_range(1)[of P2 T] by (simp add: q2_def)
      have b: "q1 * 1048576 \<le> fst (slot_nat T P1)"
        using l1 assms(1) slot_nat_last_range[of P1 T] by (simp add: q1_def)
      have "(q2 + 1) * 1048576 < (q1 + 1) * 1048576" using f2 l1 by simp
      then have "q2 + 1 \<le> q1" by simp
      then have "(q2 + 1) * 1048576 \<le> q1 * 1048576" by (rule mult_le_mono1)
      then show ?thesis using a b assms(3) by simp
    next
      case l2: False
      show ?thesis
        using last_range_unique[of P1 T] last_range_unique[of P2 T] assms l1 l2
        by (simp add: q1_def q2_def)
    qed
  qed
  then show ?thesis
    using slot_nat_same_section[of P1 P2 T] assms(3) by (simp add: q1_def q2_def)
qed


lemma gmpo_full:
  assumes "p < t" "p + (1048576 - p mod 1048576) < t"
  shows "get_metadata_page_offset t p =
     Inr (p + (1048576 - p mod 1048576) - 2048 + p mod 1048576 div 512,
          p mod 1048576 mod 512)"
  using assms by (simp add: get_metadata_page_offset_def metadata_consts Let_def not_le)

lemma gmpo_last:
  assumes "p < t" "\<not> p + (1048576 - p mod 1048576) < t"
  shows "get_metadata_page_offset t p =
     Inr (t - (t mod 1048576 * 16 div 8192 +
                (if t mod 1048576 * 16 mod 8192 \<noteq> 0 then 1 else 0))
            + p mod 1048576 div 512,
          p mod 1048576 mod 512)"
  using assms by (simp add: get_metadata_page_offset_def metadata_consts Let_def not_le)


lemma unat_add_small:
  fixes x y :: "64 word"
  assumes "unat x + unat y < 2 ^ 64"
  shows "unat (x + y) = unat x + unat y"
  using assms unat_add_lem[of x y] by simp

lemma unat_mult_small:
  fixes x y :: "64 word"
  assumes "unat x * unat y < 2 ^ 64"
  shows "unat (x * y) = unat x * unat y"
  using assms unat_mult_lem[of x y] by simp

lemma unat_sub_small:
  fixes x y :: "64 word"
  assumes "unat y \<le> unat x"
  shows "unat (x - y) = unat x - unat y"
  using assms by (simp add: unat_sub word_le_nat_alt)

lemma gmpo_slot_nat:
  assumes "p < t" "unat t * 8192 < 2 ^ 64"
  shows "\<exists>a b. get_metadata_page_offset t p = Inr (a, b) \<and>
           (unat a, unat b) = slot_nat (unat t) (unat p)"
proof -
  define T where "T = unat t"
  define P where "P = unat p"
  define q r where "q = P div 1048576" and "r = P mod 1048576"
  define i where "i = p mod 1048576"
  define en where "en = p + (1048576 - i)"
  define ip where "ip = i div 512"
  have PT: "P < T" using assms(1) by (simp add: T_def P_def word_less_nat_alt)
  have T: "T < 2 ^ 51" using assms(2) by (simp add: T_def)
  have Pqr: "P = q * 1048576 + r" and r: "r < 1048576" by (simp_all add: q_def r_def)
  have qT: "q * 1048576 < T" using Pqr PT by simp
  have a1: "unat i = r"
    by (simp add: i_def P_def r_def unat_mod)
  have a2: "unat (1048576 - i) = 1048576 - r"
    using a1 r by (simp add: unat_sub_small)
  have a3: "unat en = (q + 1) * 1048576"
  proof -
    have "unat p + unat (1048576 - i) < 2 ^ 64"
      using PT T r unfolding a2 P_def[symmetric] by simp
    then have "unat en = P + (1048576 - r)"
      unfolding a2[symmetric] P_def en_def by (rule unat_add_small)
    then show ?thesis using Pqr r by simp
  qed
  have d: "unat ip = r div 512"
    by (simp add: ip_def unat_div a1)
  have dlt: "r div 512 < 2048" using r by (simp add: less_mult_imp_div_less)
  have e: "unat (i mod 512) = r mod 512"
    by (simp add: unat_mod a1)
  show ?thesis
  proof (cases "en < t")
    case True
    then have full: "(q + 1) * 1048576 < T"
      using a3 by (simp add: word_less_nat_alt T_def)
    have s1: "unat (en - 2048) = (q + 1) * 1048576 - 2048"
    proof -
      have "unat (2048 :: 64 word) \<le> unat en" unfolding a3 by simp
      then have "unat (en - 2048) = unat en - unat (2048 :: 64 word)"
        by (rule unat_sub_small)
      then show ?thesis unfolding a3 by simp
    qed
    have s2: "unat (en - 2048 + ip) = (q + 1) * 1048576 - 2048 + r div 512"
    proof -
      have "unat (en - 2048) + unat ip < 2 ^ 64"
        unfolding s1 d using full T dlt by simp
      then show ?thesis unfolding s1[symmetric] d[symmetric] by (rule unat_add_small)
    qed
    have sl: "slot_nat T P = ((q + 1) * 1048576 - 2048 + r div 512, r mod 512)"
      using full by (simp add: slot_nat_def meta_start_nat_def q_def[symmetric] r_def[symmetric])
    have "get_metadata_page_offset t p = Inr (en - 2048 + ip, i mod 512)"
      using gmpo_full[OF assms(1)] True unfolding en_def ip_def i_def by simp
    then show ?thesis
      using s2 e sl unfolding T_def P_def by simp
  next
    case False
    then have last: "\<not> (q + 1) * 1048576 < T"
      using a3 by (simp add: word_less_nat_alt T_def)
    define rem where "rem = T mod 1048576"
    define wrem where "wrem = t mod 1048576"
    define bytes where "bytes = wrem * 16"
    have rem: "rem < 1048576" by (simp add: rem_def)
    have remT: "rem \<le> T" by (simp add: rem_def)
    have b1: "unat wrem = rem" by (simp add: wrem_def rem_def T_def unat_mod)
    have b2: "unat bytes = rem * 16"
    proof -
      have "unat wrem * unat (16 :: 64 word) < 2 ^ 64"
        unfolding b1 using rem by simp
      then have "unat bytes = unat wrem * unat (16 :: 64 word)"
        unfolding bytes_def by (rule unat_mult_small)
      then show ?thesis unfolding b1 by simp
    qed
    have b3: "unat (bytes div 8192) = rem * 16 div 8192"
      by (simp add: unat_div b2)
    have b4: "(bytes mod 8192 \<noteq> 0) = (rem * 16 mod 8192 \<noteq> 0)"
    proof -
      have "unat (bytes mod 8192) = rem * 16 mod 8192"
        by (simp add: unat_mod b2)
      then show ?thesis by (metis unat_eq_0)
    qed
    define sp where "sp = bytes div 8192 + (if bytes mod 8192 \<noteq> 0 then 1 else 0)"
    have div_le: "rem * 16 div 8192 < 2048"
      using rem by (simp add: less_mult_imp_div_less)
    have b5: "unat sp = section_pages_nat rem"
    proof -
      have "unat (bytes div 8192) +
            unat (if bytes mod 8192 \<noteq> 0 then 1 else 0 :: 64 word) < 2 ^ 64"
        unfolding b3 using div_le by simp
      then have "unat sp = unat (bytes div 8192) +
            unat (if bytes mod 8192 \<noteq> 0 then 1 else 0 :: 64 word)"
        unfolding sp_def by (rule unat_add_small)
      then show ?thesis unfolding b3 b4 by (simp add: section_pages_nat_def)
    qed
    have sple: "section_pages_nat rem \<le> T"
      using section_pages_nat_le[of rem] remT by simp
    have b6: "unat (t - sp) = T - section_pages_nat rem"
    proof -
      have "unat sp \<le> unat t" using sple b5 by (simp add: T_def)
      then have "unat (t - sp) = unat t - unat sp" by (rule unat_sub_small)
      then show ?thesis unfolding b5 T_def .
    qed
    have b7: "unat (t - sp + ip) = T - section_pages_nat rem + r div 512"
    proof -
      have "unat (t - sp) + unat ip < 2 ^ 64"
        unfolding b6 d using T dlt by simp
      then show ?thesis unfolding b6[symmetric] d[symmetric] by (rule unat_add_small)
    qed
    have sl: "slot_nat T P = (T - section_pages_nat rem + r div 512, r mod 512)"
      using last
      by (simp add: slot_nat_def meta_start_nat_def q_def[symmetric] r_def[symmetric] rem_def)
    have "get_metadata_page_offset t p = Inr (t - sp + ip, i mod 512)"
      using gmpo_last[OF assms(1)] False
      unfolding en_def ip_def i_def sp_def bytes_def wrem_def by simp
    then show ?thesis
      using b7 e sl unfolding T_def P_def by simp
  qed
qed

lemma gmpo_inj:
  assumes "p1 < t" "p2 < t" "unat t * 8192 < 2 ^ 64"
    "get_metadata_page_offset t p1 = get_metadata_page_offset t p2"
  shows "p1 = p2"
proof -
  obtain a1 b1 where g1: "get_metadata_page_offset t p1 = Inr (a1, b1)"
      "(unat a1, unat b1) = slot_nat (unat t) (unat p1)"
    using gmpo_slot_nat[OF assms(1,3)] by blast
  obtain a2 b2 where g2: "get_metadata_page_offset t p2 = Inr (a2, b2)"
      "(unat a2, unat b2) = slot_nat (unat t) (unat p2)"
    using gmpo_slot_nat[OF assms(2,3)] by blast
  have "slot_nat (unat t) (unat p1) = slot_nat (unat t) (unat p2)"
    using g1 g2 assms(4) by simp
  then have "unat p1 = unat p2"
    using slot_nat_inj[of "unat p1" "unat t" "unat p2"] assms(1,2)
    by (simp add: word_less_nat_alt)
  then show ?thesis by (simp only: word_unat_eq_iff)
qed

lemma unat_succ_less:
  fixes j n :: "64 word"
  assumes "j < n"
  shows "unat (j + 1) = Suc (unat j)"
proof -
  have "j \<noteq> - 1" using assms by (metis word_order.extremum_strict)
  then show ?thesis by (metis add.commute add_eq_0_iff2 unatSuc)
qed

lemma word_succ_le_iff:
  fixes j n k :: "64 word"
  assumes "j < n"
  shows "j + 1 \<le> k \<longleftrightarrow> j < k"
  using unat_succ_less[OF assms] by (simp add: word_le_nat_alt word_less_nat_alt Suc_le_eq)

lemma allocate_page_loop_step:
  assumes "j < n"
    "modify_page_metadata (tx\<lparr>busy := (busy tx)(pos + j := True)\<rparr>) (pos + j) = Inr slot"
  shows "allocate_page_loop pos n s j tx =
     allocate_page_loop pos n s (j + 1)
       (tx\<lparr>busy := (busy tx)(pos + j := True),
           metadata := (metadata tx)(slot := written_record n s j)\<rparr>)"
proof -
  show ?thesis
    by (subst allocate_page_loop.simps)
       (simp add: assms mark_page_as_busy_def written_record_def zero_metadata_def Let_def)
qed

lemma allocate_page_loop_inv:
  assumes "unat n - unat j0 = k"
    "allocate_page_loop pos n s j0 tx = (None, tx')"
    "unat (number_of_pages tx) * 8192 < 2 ^ 64"
  shows "number_of_pages tx' = number_of_pages tx \<and>
    (\<forall>j. j0 \<le> j \<and> j < n \<longrightarrow>
       pos + j < number_of_pages tx \<and>
       (\<exists>sl. get_metadata_page_offset (number_of_pages tx) (pos + j) = Inr sl \<and>
             fst sl < number_of_pages tx \<and>
             metadata tx' sl = written_record n s j)) \<and>
    (\<forall>sl. (\<forall>j. j0 \<le> j \<and> j < n \<longrightarrow>
              get_metadata_page_offset (number_of_pages tx) (pos + j) \<noteq> Inr sl) \<longrightarrow>
          metadata tx' sl = metadata tx sl)"
  using assms
proof (induction k arbitrary: j0 tx)
  case 0
  then have "\<not> j0 < n" by (simp add: word_less_nat_alt)
  then have "tx' = tx" using "0.prems"(2) by (simp add: allocate_page_loop.simps)
  then show ?case using \<open>\<not> j0 < n\<close> by auto
next
  case (Suc k)
  then have lt: "j0 < n" by (simp add: word_less_nat_alt)
  define total where "total = number_of_pages tx"
  define tx1 where "tx1 = tx\<lparr>busy := (busy tx)(pos + j0 := True)\<rparr>"
  have t1: "number_of_pages tx1 = total" "metadata tx1 = metadata tx"
    by (simp_all add: tx1_def total_def)
  obtain slot where slot: "modify_page_metadata tx1 (pos + j0) = Inr slot"
    using Suc.prems(2) lt
    by (subst (asm) allocate_page_loop.simps)
       (auto simp: mark_page_as_busy_def tx1_def split: sum.splits)
  define tx2 where "tx2 = tx1\<lparr>metadata := (metadata tx1)(slot := written_record n s j0)\<rparr>"
  have rec: "allocate_page_loop pos n s (j0 + 1) tx2 = (None, tx')"
    using Suc.prems(2) allocate_page_loop_step[OF lt slot[unfolded tx1_def], of s]
    by (simp add: tx2_def tx1_def)
  have g: "get_metadata_page_offset total (pos + j0) = Inr slot" and sl: "fst slot < total"
    using slot
    by (auto simp: modify_page_metadata_def modify_page_def t1 split: sum.splits prod.splits option.splits if_splits)
  have pj: "pos + j0 < total"
    using g by (auto simp: get_metadata_page_offset_def split: if_splits)
  have t2: "number_of_pages tx2 = total" by (simp add: tx2_def t1)
  have m: "unat n - unat (j0 + 1) = k"
    using Suc.prems(1) unat_succ_less[OF lt] by simp
  have IH: "number_of_pages tx' = total \<and>
    (\<forall>j. j0 + 1 \<le> j \<and> j < n \<longrightarrow>
       pos + j < total \<and>
       (\<exists>sl. get_metadata_page_offset total (pos + j) = Inr sl \<and>
             fst sl < total \<and> metadata tx' sl = written_record n s j)) \<and>
    (\<forall>sl. (\<forall>j. j0 + 1 \<le> j \<and> j < n \<longrightarrow>
              get_metadata_page_offset total (pos + j) \<noteq> Inr sl) \<longrightarrow>
          metadata tx' sl = metadata tx2 sl)"
    using Suc.IH[OF m rec] Suc.prems(3) by (simp add: t2 total_def)
  have later: "get_metadata_page_offset total (pos + j) \<noteq> Inr slot"
    if "j0 + 1 \<le> j" "j < n" for j
  proof
    assume e: "get_metadata_page_offset total (pos + j) = Inr slot"
    have "pos + j < total" using IH that by blast
    then have "pos + j = pos + j0"
      using gmpo_inj[of "pos + j" total "pos + j0"] pj e g Suc.prems(3)
      by (simp add: total_def)
    then have "j = j0" by simp
    then show False using that(1) lt by (simp add: word_succ_le_iff)
  qed
  then have "\<forall>j. j0 + 1 \<le> j \<and> j < n \<longrightarrow>
              get_metadata_page_offset total (pos + j) \<noteq> Inr slot" by blast
  then have "metadata tx' slot = metadata tx2 slot" using IH by blast
  then have own: "metadata tx' slot = written_record n s j0"
    by (simp add: tx2_def)
  show ?case
  proof (intro conjI allI impI)
    show "number_of_pages tx' = number_of_pages tx" using IH by (simp add: total_def)
  next
    fix j assume j: "j0 \<le> j \<and> j < n"
    show "pos + j < number_of_pages tx"
    proof (cases "j = j0")
      case True then show ?thesis using pj by (simp add: total_def)
    next
      case False
      then have "j0 < j" using j by auto
      then have "j0 + 1 \<le> j" using lt by (simp add: word_succ_le_iff)
      then show ?thesis using IH j by (simp add: total_def)
    qed
  next
    fix j assume j: "j0 \<le> j \<and> j < n"
    show "\<exists>sl. get_metadata_page_offset (number_of_pages tx) (pos + j) = Inr sl \<and>
             fst sl < number_of_pages tx \<and> metadata tx' sl = written_record n s j"
    proof (cases "j = j0")
      case True then show ?thesis using g sl own by (auto simp: total_def)
    next
      case False
      then have "j0 < j" using j by auto
      then have "j0 + 1 \<le> j" using lt by (simp add: word_succ_le_iff)
      then show ?thesis using IH j by (simp add: total_def)
    qed
  next
    fix sl2
    assume a: "\<forall>j. j0 \<le> j \<and> j < n \<longrightarrow>
              get_metadata_page_offset (number_of_pages tx) (pos + j) \<noteq> Inr sl2"
    then have "sl2 \<noteq> slot" using g lt by (auto simp: total_def)
    moreover have "\<forall>j. j0 + 1 \<le> j \<and> j < n \<longrightarrow>
              get_metadata_page_offset total (pos + j) \<noteq> Inr sl2"
      using a lt by (auto simp: total_def word_succ_le_iff)
    ultimately have "metadata tx' sl2 = metadata tx2 sl2" "sl2 \<noteq> slot"
      using IH by blast+
    then show "metadata tx' sl2 = metadata tx sl2"
      by (simp add: tx2_def t1)
  qed
qed

section \<open>Facts about the bit operations of the scan\<close>

lemma ctzl_props:
  assumes "w \<noteq> 0"
  shows "ctzl w < 64" and "bit w (ctzl w)" and "\<forall>k < ctzl w. \<not> bit w k"
proof -
  obtain n where n: "bit w n" using assms by (auto simp: bit_eq_iff)
  then have n64: "n < 64" by (auto dest: bit_imp_le_length)
  define xs where "xs = takeWhile (\<lambda>n. \<not> bit w n) [0..<64]"
  have "n \<in> set [0..<64]" using n64 by simp
  then have ne: "xs \<noteq> [0..<64]"
    unfolding xs_def using n by (metis set_takeWhileD)
  have len: "length xs < length [0..<64]"
    unfolding xs_def using ne[unfolded xs_def]
    by (metis length_takeWhile_le le_neq_implies_less takeWhile_eq_take take_all_iff order_refl)
  then show c: "ctzl w < 64" by (simp add: ctzl_def xs_def)
  have "\<not> (\<lambda>n. \<not> bit w n) ([0..<64] ! length xs)"
    unfolding xs_def using len[unfolded xs_def] by (rule nth_length_takeWhile)
  then show "bit w (ctzl w)" using c by (simp add: ctzl_def xs_def)
  show "\<forall>k < ctzl w. \<not> bit w k"
  proof (intro allI impI)
    fix k assume k: "k < ctzl w"
    then have "k < length xs" by (simp add: ctzl_def xs_def)
    then have "xs ! k \<in> set xs" by simp
    moreover have "xs ! k = [0..<64] ! k"
      unfolding xs_def using \<open>k < length xs\<close>[unfolded xs_def] by (rule takeWhile_nth)
    ultimately have "[0..<64] ! k \<in> set (takeWhile (\<lambda>n. \<not> bit w n) [0..<64])"
      by (simp add: xs_def)
    then have "\<not> bit w ([0..<64] ! k)" by (rule set_takeWhileD[THEN conjunct2])
    then show "\<not> bit w k" using k c by simp
  qed
qed

lemma int_lowest_bit:
  fixes k :: int
  shows "bit (k AND - k) n \<longleftrightarrow> bit k n \<and> (\<forall>j<n. \<not> bit k j)"
proof (induction n arbitrary: k)
  case 0
  show ?case by (simp add: bit_0 even_and_iff)
next
  case (Suc n)
  have split: "(\<forall>j<Suc n. \<not> bit k j) \<longleftrightarrow> \<not> bit k 0 \<and> (\<forall>j<n. \<not> bit (k div 2) j)"
    by (auto simp: less_Suc_eq_0_disj bit_Suc)
  have "bit (k AND - k) (Suc n) \<longleftrightarrow> bit k (Suc n) \<and> bit (- k) (Suc n)"
    by (simp only: bit_and_iff)
  then have l: "bit (k AND - k) (Suc n) \<longleftrightarrow> bit (k div 2) n \<and> bit ((- k) div 2) n"
    by (simp only: bit_Suc)
  show ?case
  proof (cases "even k")
    case True
    then obtain m where m: "k = 2 * m" by (auto elim: evenE)
    have "(- k) div 2 = - (k div 2)" by (simp add: m)
    then have "bit (k AND - k) (Suc n) \<longleftrightarrow> bit (k div 2 AND - (k div 2)) n"
      using l by (simp add: bit_and_iff)
    also have "\<dots> \<longleftrightarrow> bit (k div 2) n \<and> (\<forall>j<n. \<not> bit (k div 2) j)"
      by (rule Suc.IH)
    finally show ?thesis using True by (simp add: split bit_Suc bit_0)
  next
    case False
    then obtain m where m: "k = 2 * m + 1" by (auto elim: oddE)
    have "(- k) div 2 = NOT (k div 2)" by (simp add: m not_int_def)
    then have "\<not> bit (k AND - k) (Suc n)"
      using l by (simp add: bit_not_iff)
    then show ?thesis using False by (simp add: split bit_0)
  qed
qed

lemma lowest_bit_isolated:
  fixes w :: "64 word"
  shows "bit (w AND - w) k \<longleftrightarrow> bit w k \<and> (\<forall>j<k. \<not> bit w j)"
proof -
  have "- w = word_of_int (- uint w)" by simp
  then have "bit (- w) k \<longleftrightarrow> k < 64 \<and> bit (- uint w) k"
    by (simp only: bit_word_of_int_iff) simp
  moreover have "bit w j \<longleftrightarrow> bit (uint w) j" for j
    by (simp add: bit_uint_iff) (auto dest: bit_imp_le_length)
  moreover have "bit w k \<Longrightarrow> k < 64" by (auto dest: bit_imp_le_length)
  ultimately show ?thesis
    using int_lowest_bit[of "uint w" k] by (auto simp: bit_and_iff)
qed

lemma mask_bits:
  fixes m k :: nat
  assumes "k < 64"
  shows "bit (NOT (push_bit m (- 1)) :: 64 word) k \<longleftrightarrow> k < m"
  using assms by (simp add: bit_simps)

lemma clear_lowest_bits:
  fixes bitset :: "64 word"
  assumes "bitset \<noteq> 0"
  shows "bit (bitset XOR (bitset AND - bitset)) k \<longleftrightarrow> bit bitset k \<and> k \<noteq> ctzl bitset"
proof (cases "bit bitset k")
  case False
  then show ?thesis by (simp add: bit_xor_iff bit_and_iff)
next
  case True
  have "(\<forall>j<k. \<not> bit bitset j) \<longleftrightarrow> k = ctzl bitset"
  proof
    assume a: "\<forall>j<k. \<not> bit bitset j"
    have "\<not> ctzl bitset < k" using a ctzl_props(2)[OF assms] by blast
    moreover have "\<not> k < ctzl bitset" using True ctzl_props(3)[OF assms] by blast
    ultimately show "k = ctzl bitset" by simp
  next
    assume "k = ctzl bitset"
    then show "\<forall>j<k. \<not> bit bitset j" using ctzl_props(3)[OF assms] by simp
  qed
  then show ?thesis using True by (simp add: bit_xor_iff lowest_bit_isolated)
qed

lemma found_test:
  fixes prev sr csb :: "64 word"
  assumes "sr \<noteq> 0" "unat (prev + 1) + unat sr \<le> 2 ^ 64"
  shows "prev + sr < csb \<longleftrightarrow> unat (prev + 1) + unat sr \<le> unat csb"
proof -
  have sr1: "1 \<le> unat sr" using assms(1) by (simp add: unat_gt_0 Suc_le_eq)
  have u1: "unat (sr - 1) = unat sr - 1" using assms(1) by (simp add: unat_minus_one)
  have "unat (prev + 1) + unat (sr - 1) < 2 ^ 64" using assms(2) sr1 u1 by simp
  then have "unat (prev + 1 + (sr - 1)) = unat (prev + 1) + unat (sr - 1)"
    by (rule unat_add_small)
  moreover have "prev + 1 + (sr - 1) = prev + sr" by simp
  ultimately have "unat (prev + sr) = unat (prev + 1) + unat sr - 1" using u1 sr1 by simp
  then show ?thesis using sr1 by (simp add: word_less_nat_alt) arith
qed

lemma unat_word_end:
  fixes i :: "64 word"
  assumes "(unat i + 1) * 64 < 2 ^ 64"
  shows "unat ((i + 1) * 64) = (unat i + 1) * 64"
proof -
  have "unat i + unat (1 :: 64 word) < 2 ^ 64" using assms by simp
  then have a: "unat (i + 1) = unat i + 1" using unat_add_small[of i 1] by simp
  have "unat (i + 1) * unat (64 :: 64 word) < 2 ^ 64" using assms a by simp
  then show ?thesis using unat_mult_small[of "i + 1" 64] a by simp
qed

lemma unat_word_bit:
  fixes i :: "64 word"
  assumes "(unat i + 1) * 64 < 2 ^ 64" "r < 64"
  shows "unat (i * 64 + of_nat r) = unat i * 64 + r"
proof -
  have r: "unat (of_nat r :: 64 word) = r"
    by (rule of_nat_inverse[OF refl]) (use assms(2) in simp)
  have "unat i * unat (64 :: 64 word) < 2 ^ 64" using assms by simp
  then have m: "unat (i * 64) = unat i * 64" using unat_mult_small[of i 64] by simp
  have "unat (i * 64) + unat (of_nat r :: 64 word) < 2 ^ 64" using assms m r by simp
  then show ?thesis using unat_add_small[of "i * 64" "of_nat r"] m r by simp
qed

lemma unat_succ_small:
  fixes c :: "64 word"
  assumes "unat c + 1 < 2 ^ 64"
  shows "unat (c + 1) = unat c + 1"
  using assms unat_add_small[of c 1] by simp

lemma handle_zero_word_fields:
  "fst (handle_zero_word rng) \<longleftrightarrow>
     previous_set_bit rng + size_required rng < (index rng + 1) * 64"
  "current_set_bit (snd (handle_zero_word rng)) = (index rng + 1) * 64"
  "previous_set_bit (snd (handle_zero_word rng)) = previous_set_bit rng"
  "same_params rng (snd (handle_zero_word rng))"
  "fst (handle_zero_word rng) \<Longrightarrow>
     position (selection (snd (handle_zero_word rng))) = previous_set_bit rng + 1"
  "fst (handle_zero_word rng) \<Longrightarrow>
     size_available (selection (snd (handle_zero_word rng))) =
       (index rng + 1) * 64 - (previous_set_bit rng + 1)"
  by (simp_all add: handle_zero_word_def Let_def same_params_def split: if_splits)

lemma handle_zero_word_spec:
  assumes sr: "size_required rng \<noteq> 0"
    and room: "(unat (index rng) + 1) * 64 + unat (size_required rng) < 2 ^ 64"
    and q: "next_free rng \<le> (unat (index rng) + 1) * 64"
    and h: "handle_zero_word rng = (b, rng')"
  shows "same_params rng rng'"
    and "previous_set_bit rng' = previous_set_bit rng"
    and "unat (current_set_bit rng') = (unat (index rng) + 1) * 64"
    and "b \<longleftrightarrow> next_free rng + unat (size_required rng) \<le> (unat (index rng) + 1) * 64"
    and "b \<Longrightarrow> unat (position (selection rng')) = next_free rng"
    and "b \<Longrightarrow> unat (size_available (selection rng')) = (unat (index rng) + 1) * 64 - next_free rng"
proof -
  define csb where "csb = (index rng + 1) * 64"
  have b: "b = fst (handle_zero_word rng)" and r: "rng' = snd (handle_zero_word rng)"
    using h by simp_all
  have c: "unat csb = (unat (index rng) + 1) * 64"
    unfolding csb_def by (rule unat_word_end) (use room in simp)
  have t: "previous_set_bit rng + size_required rng < csb \<longleftrightarrow>
           next_free rng + unat (size_required rng) \<le> (unat (index rng) + 1) * 64"
    unfolding next_free_def c[symmetric]
    by (rule found_test[OF sr]) (use q room in \<open>simp add: next_free_def\<close>)
  show "same_params rng rng'" unfolding r by (rule handle_zero_word_fields)
  show "previous_set_bit rng' = previous_set_bit rng" unfolding r by (rule handle_zero_word_fields)
  show "unat (current_set_bit rng') = (unat (index rng) + 1) * 64"
    unfolding r handle_zero_word_fields(2) csb_def[symmetric] by (rule c)
  show "b \<longleftrightarrow> next_free rng + unat (size_required rng) \<le> (unat (index rng) + 1) * 64"
    unfolding b handle_zero_word_fields(1) csb_def[symmetric] by (rule t)
  show "unat (position (selection rng')) = next_free rng" if b
    using that unfolding b r by (simp only: handle_zero_word_fields(5) next_free_def)
  show "unat (size_available (selection rng')) = (unat (index rng) + 1) * 64 - next_free rng" if b
  proof -
    have "size_available (selection rng') = csb - (previous_set_bit rng + 1)"
      using that unfolding b r csb_def by (rule handle_zero_word_fields(6))
    moreover have "unat (previous_set_bit rng + 1) \<le> unat csb"
      using q c by (simp add: next_free_def)
    then have "unat (csb - (previous_set_bit rng + 1)) = unat csb - unat (previous_set_bit rng + 1)"
      by (rule unat_sub_small)
    ultimately show ?thesis by (simp only: c next_free_def)
  qed
qed

lemma find_range_once_loop_zero:
  "find_range_once_loop 0 rng = handle_zero_word rng"
  by (subst find_range_once_loop.simps) simp

lemma find_range_once_loop_found:
  assumes "bitset \<noteq> 0" "csb = index rng * 64 + of_nat (ctzl bitset)"
    "previous_set_bit rng + size_required rng < csb"
  shows "fst (find_range_once_loop bitset rng)"
    and "current_set_bit (snd (find_range_once_loop bitset rng)) = csb"
    and "previous_set_bit (snd (find_range_once_loop bitset rng)) = csb"
    and "position (selection (snd (find_range_once_loop bitset rng))) = previous_set_bit rng + 1"
    and "size_available (selection (snd (find_range_once_loop bitset rng))) =
           csb - (previous_set_bit rng + 1)"
    and "same_params rng (snd (find_range_once_loop bitset rng))"
  using assms
  by (subst find_range_once_loop.simps; simp add: Let_def same_params_def)+

lemma find_range_once_loop_next:
  assumes "bitset \<noteq> 0" "csb = index rng * 64 + of_nat (ctzl bitset)"
    "\<not> previous_set_bit rng + size_required rng < csb"
  shows "find_range_once_loop bitset rng =
     find_range_once_loop (bitset XOR (bitset AND - bitset))
       (rng\<lparr>current_set_bit := csb, previous_set_bit := csb\<rparr>)"
  using assms
  by (subst find_range_once_loop.simps) (simp add: Let_def)

lemma once_post_cong:
  assumes "same_params rng rng2" "once_post L rng2 b rng'"
  shows "once_post L rng b rng'"
  using assms by (simp add: once_post_def same_params_def)

lemma find_range_once_loop_spec:
  assumes sr: "size_required rng \<noteq> 0"
    and room: "(unat (index rng) + 1) * 64 + unat (size_required rng) < 2 ^ 64"
    and L: "L \<le> (unat (index rng) + 1) * 64"
    and t: "t \<le> 64"
    and bits: "\<forall>k. bit bitset k \<longleftrightarrow> bit (current rng) k \<and> t \<le> k"
    and below: "\<forall>k. unat (index rng) * 64 + k < L \<longrightarrow> bit (current rng) k"
    and t0: "t = 0 \<longrightarrow> L \<le> next_free rng \<and> next_free rng \<le> (unat (index rng) + 1) * 64"
    and tp: "0 < t \<longrightarrow> next_free rng = unat (index rng) * 64 + t"
    and run: "find_range_once_loop bitset rng = (b, rng')"
  shows "once_post L rng b rng'"
  using assms
proof (induction "unat bitset" arbitrary: bitset rng t rule: less_induct)
  case less
  define i where "i = unat (index rng)"
  define s where "s = unat (size_required rng)"
  define q where "q = next_free rng"
  note sr = less.prems(1) and room = less.prems(2)[folded i_def s_def]
    and L = less.prems(3)[folded i_def] and t = less.prems(4)
    and bits = less.prems(5) and below = less.prems(6)[folded i_def]
    and t0 = less.prems(7)[folded i_def q_def] and tp = less.prems(8)[folded i_def q_def]
    and run = less.prems(9)
  have s1: "1 \<le> s" using sr by (simp add: s_def unat_gt_0 Suc_le_eq)
  have qle: "q \<le> (i + 1) * 64" using t0 tp t by (cases "t = 0") simp_all
  have K: "0 < t \<and> t < 64 \<and> bit bitset t" if "\<not> L \<le> q"
  proof -
    have tpos: "0 < t" using that t0 by (cases "t = 0") simp_all
    then have qt: "q = i * 64 + t" using tp by simp
    then have "i * 64 + t < L" using that by simp
    then have "bit (current rng) t" "t < 64" using below L by auto
    then show ?thesis using tpos bits by simp
  qed
  show ?case
  proof (cases "bitset = 0")
    case True
    then have Lq: "L \<le> q" using K by auto
    have h: "handle_zero_word rng = (b, rng')"
      using run True by (simp add: find_range_once_loop_zero)
    note z = handle_zero_word_spec[OF sr less.prems(2) _ h, folded i_def s_def q_def, OF qle]
    have nf: "next_free rng' = q" using z(2) by (simp add: next_free_def q_def)
    show ?thesis
      unfolding once_post_def Let_def i_def[symmetric] s_def[symmetric]
      using z(1) z(3) z(4) z(5) z(6) nf Lq qle by auto
  next
    case False
    define r where "r = ctzl bitset"
    have r: "r < 64" "bit bitset r" "\<forall>k<r. \<not> bit bitset k"
      using ctzl_props[OF False] by (simp_all add: r_def)
    have wr: "bit (current rng) r" and tr: "t \<le> r" using r(2) bits by auto
    define csb where "csb = index rng * 64 + of_nat r"
    have csb': "csb = index rng * 64 + of_nat (ctzl bitset)" by (simp add: csb_def r_def)
    have c: "unat csb = i * 64 + r"
      unfolding csb_def i_def by (rule unat_word_bit) (use room r(1) in \<open>simp_all add: i_def\<close>)
    have test: "previous_set_bit rng + size_required rng < csb \<longleftrightarrow> q + s \<le> i * 64 + r"
      unfolding q_def next_free_def s_def c[symmetric]
      by (rule found_test[OF sr]) (use qle room in \<open>simp add: q_def next_free_def s_def\<close>)
    have c1: "unat (csb + 1) = i * 64 + r + 1"
      using unat_succ_small[of csb] c room r(1) by simp
    show ?thesis
    proof (cases "previous_set_bit rng + size_required rng < csb")
      case found: True
      then have qs: "q + s \<le> i * 64 + r" using test by simp
      note f = find_range_once_loop_found[OF False csb' found]
      have b: "b" and rng': "rng' = snd (find_range_once_loop bitset rng)"
        using run f(1) by simp_all
      have Lq: "L \<le> q"
      proof (rule ccontr)
        assume "\<not> L \<le> q"
        then have k: "0 < t" "bit bitset t" using K by auto
        then have "\<not> t < r" using r(3) by auto
        then have "t = r" using tr by simp
        then have "q = i * 64 + r" using tp k(1) by simp
        then show False using qs s1 by simp
      qed
      have p: "unat (position (selection rng')) = q"
        unfolding rng' f(4) by (simp add: q_def next_free_def)
      have "unat (previous_set_bit rng + 1) \<le> unat csb"
        using qs c by (simp add: q_def next_free_def)
      then have "unat (csb - (previous_set_bit rng + 1)) = unat csb - unat (previous_set_bit rng + 1)"
        by (rule unat_sub_small)
      then have sz: "unat (size_available (selection rng')) = i * 64 + r - q"
        unfolding rng' f(5) by (simp only: c q_def next_free_def)
      have cc: "unat (current_set_bit rng') = i * 64 + r"
        unfolding rng' f(2) by (rule c)
      have nf: "next_free rng' = i * 64 + r + 1"
        unfolding next_free_def rng' f(3) by (rule c1)
      have sp: "same_params rng rng'" unfolding rng' by (rule f(6))
      have m: "(i * 64 + r) mod 64 = r" using r(1) by simp
      show ?thesis
        unfolding once_post_def Let_def i_def[symmetric] s_def[symmetric] p sz cc nf m
        using b sp Lq qs wr r(1) by auto
    next
      case nf: False
      define bitset2 where "bitset2 = bitset XOR (bitset AND - bitset)"
      define rng2 where "rng2 = rng\<lparr>current_set_bit := csb, previous_set_bit := csb\<rparr>"
      have run2: "find_range_once_loop bitset2 rng2 = (b, rng')"
        using run find_range_once_loop_next[OF False csb' nf]
        by (simp add: bitset2_def rng2_def)
      have less: "unat bitset2 < unat bitset"
        unfolding bitset2_def using clear_lowest_less[OF False] by (simp add: word_less_nat_alt)
      have f2: "index rng2 = index rng" "size_required rng2 = size_required rng"
        "current rng2 = current rng" "next_free rng2 = i * 64 + (r + 1)"
        using c1 by (simp_all add: rng2_def next_free_def)
      have bits2: "\<forall>k. bit bitset2 k \<longleftrightarrow> bit (current rng2) k \<and> r + 1 \<le> k"
      proof
        fix k
        have "bit bitset2 k \<longleftrightarrow> bit bitset k \<and> k \<noteq> r"
          unfolding bitset2_def r_def by (rule clear_lowest_bits[OF False])
        also have "\<dots> \<longleftrightarrow> bit (current rng) k \<and> r + 1 \<le> k"
          using bits r(3) tr by (metis Suc_eq_plus1 Suc_leI le_neq_implies_less le_trans not_less_eq_eq not_le_imp_less nat_less_le)
        finally show "bit bitset2 k \<longleftrightarrow> bit (current rng2) k \<and> r + 1 \<le> k"
          by (simp add: f2)
      qed
      have "once_post L rng2 b rng'"
        by (rule less.hyps[OF less, of rng2 "r + 1"])
           (use sr less.prems(2) less.prems(3) r(1) bits2 less.prems(6) run2 f2
             in \<open>simp_all add: i_def\<close>)
      moreover have "same_params rng rng2" by (simp add: same_params_def rng2_def)
      ultimately show ?thesis by (rule once_post_cong[rotated])
    qed
  qed
qed

lemma scan_valid_room:
  assumes "scan_valid rng"
  shows "(unat (index rng) + 1) * 64 + unat (size_required rng) < 2 ^ 64"
proof -
  have "unat (index rng) + 1 \<le> unat (bitmap_size rng)"
    using assms by (simp add: scan_valid_def word_less_nat_alt)
  then have "(unat (index rng) + 1) * 64 \<le> unat (bitmap_size rng) * 64"
    by (rule mult_le_mono1)
  then show ?thesis using assms by (simp add: scan_valid_def)
qed

lemma find_range_once_spec:
  assumes v: "scan_valid rng" and inv: "scan_inv L rng"
    and run: "find_range_once rng = (b, rng')"
  shows "once_post L rng b rng'"
proof (cases "current rng = ULONG_MAX")
  case True
  define i where "i = unat (index rng)"
  have room: "(i + 1) * 64 + unat (size_required rng) < 2 ^ 64"
    using scan_valid_room[OF v] by (simp add: i_def)
  have b: "\<not> b" and r: "rng' = rng\<lparr>previous_set_bit := (index rng + 1) * 64 - 1\<rparr>"
    using run True by (simp_all add: find_range_once_def)
  have e: "unat ((index rng + 1) * 64) = (i + 1) * 64"
    unfolding i_def by (rule unat_word_end) (use room in \<open>simp add: i_def\<close>)
  have "previous_set_bit rng' + 1 = (index rng + 1) * 64" unfolding r by simp
  then have "next_free rng' = (i + 1) * 64" by (simp only: next_free_def e)
  moreover have "L \<le> (i + 1) * 64" using inv by (simp add: scan_inv_def i_def)
  moreover have "same_params rng rng'" by (simp add: r same_params_def)
  ultimately show ?thesis using b by (simp add: once_post_def i_def)
next
  case False
  have l: "find_range_once_loop (current rng) rng = (b, rng')"
    using run False
    by (cases "current rng = 0") (simp_all add: find_range_once_def find_range_once_loop_zero)
  show ?thesis
  proof (rule find_range_once_loop_spec[OF _ scan_valid_room[OF v] _ _ _ _ _ _ l, of L 0])
    show "size_required rng \<noteq> 0" using v by (simp add: scan_valid_def)
    show "L \<le> (unat (index rng) + 1) * 64" using inv by (simp add: scan_inv_def)
    show "(0::nat) \<le> 64" by simp
    show "\<forall>k. bit (current rng) k = (bit (current rng) k \<and> 0 \<le> k)" by simp
    show "\<forall>k. unat (index rng) * 64 + k < L \<longrightarrow> bit (current rng) k"
      using inv by (auto simp: scan_inv_def)
    show "0 = 0 \<longrightarrow> L \<le> next_free rng \<and> next_free rng \<le> (unat (index rng) + 1) * 64"
      using inv by (simp add: scan_inv_def)
    show "(0::nat) < 0 \<longrightarrow> next_free rng = unat (index rng) * 64 + 0" by simp
  qed
qed

lemma find_next_range_found_mask:
  assumes "find_range_once rng = (True, r1)" "current_set_bit r1 mod 64 \<noteq> 0"
  shows "find_next_range rng =
     (True, r1\<lparr>current := current r1 OR
                 NOT (push_bit (unat (current_set_bit r1 mod 64)) ULONG_MAX)\<rparr>)"
  using assms by (subst find_next_range.simps) (simp add: Let_def)

lemma find_next_range_found_continue:
  assumes "find_range_once rng = (True, r1)" "current_set_bit r1 mod 64 = 0"
    "index r1 + 1 < bitmap_size r1"
  shows "find_next_range rng =
     find_next_range (r1\<lparr>index := index r1 + 1, current := bitmap r1 ! unat (index r1 + 1)\<rparr>)"
  using assms by (subst find_next_range.simps) (simp add: Let_def)

lemma find_next_range_found_last:
  assumes "find_range_once rng = (True, r1)" "current_set_bit r1 mod 64 = 0"
    "\<not> index r1 + 1 < bitmap_size r1"
  shows "find_next_range rng = (True, r1\<lparr>current := ULONG_MAX\<rparr>)"
  using assms by (subst find_next_range.simps) (simp add: Let_def)

lemma find_next_range_none_end:
  assumes "find_range_once rng = (False, r1)" "bitmap_size r1 \<le> index r1 + 1"
  shows "find_next_range rng = (False, r1\<lparr>index := index r1 + 1\<rparr>)"
  using assms by (subst find_next_range.simps) (simp add: Let_def)

lemma find_next_range_none_next:
  assumes "find_range_once rng = (False, r1)" "\<not> bitmap_size r1 \<le> index r1 + 1"
  shows "find_next_range rng =
     find_next_range (r1\<lparr>index := index r1 + 1, current := bitmap r1 ! unat (index r1 + 1)\<rparr>)"
  using assms by (subst find_next_range.simps) (simp add: Let_def)

lemma find_next_range_final:
  assumes "scan_final rng"
  shows "\<not> fst (find_next_range rng)"
proof -
  have o: "find_range_once rng = (False, rng\<lparr>previous_set_bit := (index rng + 1) * 64 - 1\<rparr>)"
    using assms by (simp add: find_range_once_def scan_final_def)
  show ?thesis
    using find_next_range_none_end[OF o] assms by (simp add: scan_final_def)
qed

lemma find_next_range_spec:
  assumes "scan_valid rng" "scan_inv L rng" "find_next_range rng = (b, rng')"
  shows "bitmap_size rng' = bitmap_size rng \<and> size_required rng' = size_required rng \<and>
     (b \<longrightarrow> L \<le> unat (position (selection rng')) \<and>
            unat (size_required rng) \<le> unat (size_available (selection rng')) \<and>
            (scan_final rng' \<or>
             scan_valid rng' \<and> scan_inv (unat (position (selection rng')) + 1) rng'))"
  using assms
proof (induction "scan_measure rng" arbitrary: rng rule: less_induct)
  case less
  note v = less.prems(1) and inv = less.prems(2) and run = less.prems(3)
  define i where "i = unat (index rng)"
  define s where "s = unat (size_required rng)"
  obtain b1 r1 where o: "find_range_once rng = (b1, r1)" by (cases "find_range_once rng")
  have post: "once_post L rng b1 r1" by (rule find_range_once_spec[OF v inv o])
  then have sp: "same_params rng r1" by (simp add: once_post_def)
  then have f: "bitmap_size r1 = bitmap_size rng" "size_required r1 = size_required rng"
    "index r1 = index rng" "current r1 = current rng"
    by (simp_all add: same_params_def)
  have s1: "1 \<le> s" using v by (simp add: s_def scan_valid_def unat_gt_0 Suc_le_eq)
  have ilt: "index rng < bitmap_size rng" using v by (simp add: scan_valid_def)
  have i1: "unat (index rng + 1) = i + 1" using unat_succ_less[OF ilt] by (simp add: i_def)
  define r2 where "r2 = r1\<lparr>index := index r1 + 1, current := bitmap r1 ! unat (index r1 + 1)\<rparr>"
  have rec: "bitmap_size rng' = bitmap_size rng \<and> size_required rng' = size_required rng \<and>
     (b \<longrightarrow> L \<le> unat (position (selection rng')) \<and>
            unat (size_required rng) \<le> unat (size_available (selection rng')) \<and>
            (scan_final rng' \<or>
             scan_valid rng' \<and> scan_inv (unat (position (selection rng')) + 1) rng'))"
    if lt: "index r1 + 1 < bitmap_size r1"
      and q1: "L \<le> next_free r1" "next_free r1 \<le> (i + 1) * 64"
      and run2: "find_next_range r2 = (b, rng')"
  proof -
    have m: "scan_measure r2 < scan_measure rng"
      unfolding r2_def by (rule find_next_range_term_aux[OF o lt])
    have v2: "scan_valid r2"
      using v lt f by (simp add: scan_valid_def r2_def)
    have inv2: "scan_inv L r2"
      using q1 i1 f by (simp add: scan_inv_def r2_def next_free_def)
    have "bitmap_size rng' = bitmap_size r2 \<and> size_required rng' = size_required r2 \<and>
     (b \<longrightarrow> L \<le> unat (position (selection rng')) \<and>
            unat (size_required r2) \<le> unat (size_available (selection rng')) \<and>
            (scan_final rng' \<or>
             scan_valid rng' \<and> scan_inv (unat (position (selection rng')) + 1) rng'))"
      by (rule less.hyps[OF m v2 inv2 run2])
    then show ?thesis using f by (simp add: r2_def)
  qed
  show ?case
  proof (cases b1)
    case found: True
    define p where "p = unat (position (selection r1))"
    define sz where "sz = unat (size_available (selection r1))"
    define c where "c = unat (current_set_bit r1)"
    have P: "L \<le> p" "s \<le> sz" "p + sz = c" "i * 64 \<le> c" "c \<le> (i + 1) * 64"
      "c mod 64 \<noteq> 0 \<longrightarrow> next_free r1 = c + 1 \<and> bit (current rng) (c mod 64)"
      "c mod 64 = 0 \<longrightarrow> p \<le> next_free r1 \<and> next_free r1 \<le> (i + 1) * 64"
      using post found
      by (simp_all add: once_post_def Let_def p_def sz_def c_def i_def s_def)
    have cm: "unat (current_set_bit r1 mod 64) = c mod 64"
      by (simp add: unat_mod c_def)
    have cz: "current_set_bit r1 mod 64 = 0 \<longleftrightarrow> c mod 64 = 0"
      using cm by (metis unat_eq_0)
    have o': "find_range_once rng = (True, r1)" using o found by simp
    show ?thesis
    proof (cases "current_set_bit r1 mod 64 = 0")
      case nz: False
      then have cnz: "c mod 64 \<noteq> 0" using cz by simp
      define mask where "mask = NOT (push_bit (c mod 64) ULONG_MAX)"
      have res: "b" "rng' = r1\<lparr>current := current r1 OR mask\<rparr>"
        using run find_next_range_found_mask[OF o' nz] by (simp_all add: mask_def cm)
      have nf: "next_free rng' = c + 1" using P(6) cnz by (simp add: res next_free_def)
      have clt: "c < (i + 1) * 64"
      proof (rule ccontr)
        assume "\<not> c < (i + 1) * 64"
        then have "c = (i + 1) * 64" using P(5) by simp
        then show False using cnz by simp
      qed
      have "c div 64 = i"
        by (rule div_nat_eqI) (use P(4) clt in simp_all)
      then have cdec: "c = i * 64 + c mod 64"
        using div_mult_mod_eq[of c 64] by simp
      have r64: "c mod 64 < 64" by simp
      have bits: "bit (current r1 OR mask) k" if "i * 64 + k < c + 1" for k
      proof (cases "k < c mod 64")
        case True
        then have "k < 64" using r64 by (rule less_trans)
        then have "bit (NOT (push_bit (c mod 64) (- 1)) :: 64 word) k"
          using True mask_bits[of k "c mod 64"] by blast
        then have "bit mask k" by (simp only: mask_def ULONG_MAX_def)
        then show ?thesis by (simp only: bit_or_iff simp_thms)
      next
        case False
        have "i * 64 + k < i * 64 + c mod 64 + 1" using that cdec by simp
        then have "k = c mod 64" using False by simp
        then have "bit (current r1) k" using P(6) cnz f by simp
        then show ?thesis by (simp only: bit_or_iff simp_thms)
      qed
      have v': "scan_valid rng'" using v f by (simp add: scan_valid_def res)
      have "scan_inv (p + 1) rng'"
        unfolding scan_inv_def nf
        using P(2,3) s1 clt bits f by (simp add: res i_def)
      then show ?thesis using res P v' f by (simp add: p_def sz_def s_def)
    next
      case z: True
      then have cz0: "c mod 64 = 0" using cz by simp
      show ?thesis
      proof (cases "index r1 + 1 < bitmap_size r1")
        case lt: True
        have run2: "find_next_range r2 = (b, rng')"
          using run find_next_range_found_continue[OF o' z lt] by (simp add: r2_def)
        show ?thesis
          by (rule rec[OF lt _ _ run2]) (use P cz0 in simp_all)
      next
        case last: False
        have res: "b" "rng' = r1\<lparr>current := ULONG_MAX\<rparr>"
          using run find_next_range_found_last[OF o' z last] by simp_all
        have "scan_final rng'" using last by (simp add: scan_final_def res not_less)
        then show ?thesis using res P f by (simp add: p_def sz_def s_def)
      qed
    qed
  next
    case none: False
    have o': "find_range_once rng = (False, r1)" using o none by simp
    have Q: "L \<le> next_free r1" "next_free r1 \<le> (i + 1) * 64"
      using post none by (simp_all add: once_post_def i_def)
    show ?thesis
    proof (cases "bitmap_size r1 \<le> index r1 + 1")
      case True
      then show ?thesis
        using run find_next_range_none_end[OF o' True] f by auto
    next
      case False
      then have lt: "index r1 + 1 < bitmap_size r1" by simp
      have run2: "find_next_range r2 = (b, rng')"
        using run find_next_range_none_next[OF o' False] by (simp add: r2_def)
      show ?thesis by (rule rec[OF lt Q run2])
    qed
  qed
qed

lemma seen_loop_induct:
  assumes run: "find_smallest_nearby_range_seen_loop seen cur boundary sn rng = Some y"
    and none: "\<And>seen cur boundary sn rng r1.
       find_next_range rng = (False, r1) \<Longrightarrow>
       P seen cur boundary sn rng (size_available cur \<noteq> SIZE_MAX, r1\<lparr>selection := cur\<rparr>, seen)"
    and exact: "\<And>seen cur boundary sn rng r1.
       find_next_range rng = (True, r1) \<Longrightarrow>
       size_required r1 = size_available (selection r1) \<Longrightarrow>
       P seen cur boundary sn rng (True, r1, seen @ [selection r1])"
    and cross: "\<And>seen cur boundary sn rng r1.
       find_next_range rng = (True, r1) \<Longrightarrow>
       size_required r1 \<noteq> size_available (selection r1) \<Longrightarrow>
       sn \<Longrightarrow> boundary < position (selection r1) \<Longrightarrow>
       P seen cur boundary sn rng
         (True,
          if size_available (track cur (selection r1)) < size_available (selection r1)
          then r1\<lparr>selection := track cur (selection r1)\<rparr> else r1,
          seen @ [selection r1])"
    and step: "\<And>seen cur boundary sn rng r1 y.
       find_next_range rng = (True, r1) \<Longrightarrow>
       size_required r1 \<noteq> size_available (selection r1) \<Longrightarrow>
       \<not> (sn \<and> boundary < position (selection r1)) \<Longrightarrow>
       P (seen @ [selection r1]) (track cur (selection r1)) boundary sn r1 y \<Longrightarrow>
       P seen cur boundary sn rng y"
  shows "P seen cur boundary sn rng y"
proof (rule find_smallest_nearby_range_seen_loop.raw_induct[where P = P, OF _ run])
  fix f seen cur boundary sn rng y
  assume IH: "\<And>seen cur boundary sn rng y.
      f seen cur boundary sn rng = Some y \<Longrightarrow> P seen cur boundary sn rng y"
  assume eq: "(case find_next_range rng of
       (found, rng) \<Rightarrow>
         if found then
           let seen = seen @ [selection rng]
           in if size_required rng = size_available (selection rng)
              then Some (True, rng, seen)
              else
                let cur = (if size_available cur > size_available (selection rng)
                           then selection rng else cur)
                in if sn \<and> position (selection rng) > boundary
                   then Some (True,
                          if size_available cur < size_available (selection rng)
                          then rng\<lparr>selection := cur\<rparr> else rng, seen)
                   else f seen cur boundary sn rng
         else Some (size_available cur \<noteq> SIZE_MAX, rng\<lparr>selection := cur\<rparr>, seen)) = Some y"
  obtain found r1 where n: "find_next_range rng = (found, r1)"
    by (cases "find_next_range rng")
  show "P seen cur boundary sn rng y"
  proof (cases found)
    case False
    then have "y = (size_available cur \<noteq> SIZE_MAX, r1\<lparr>selection := cur\<rparr>, seen)"
      using eq n by simp
    then show ?thesis using none n False by simp
  next
    case True
    show ?thesis
    proof (cases "size_required r1 = size_available (selection r1)")
      case ex: True
      then have "y = (True, r1, seen @ [selection r1])"
        using eq n True by (simp add: Let_def)
      then show ?thesis using exact n True ex by simp
    next
      case ne: False
      show ?thesis
      proof (cases "sn \<and> boundary < position (selection r1)")
        case cr: True
        then have "y = (True,
          if size_available (track cur (selection r1)) < size_available (selection r1)
          then r1\<lparr>selection := track cur (selection r1)\<rparr> else r1,
          seen @ [selection r1])"
          using eq n True ne by (auto simp: Let_def track_def)
        moreover have n': "find_next_range rng = (True, r1)" using n True by simp
        ultimately show ?thesis using cross[OF n' ne] cr by simp
      next
        case ncr: False
        then have "f (seen @ [selection r1]) (track cur (selection r1)) boundary sn r1 = Some y"
          using eq n True ne by (auto simp: Let_def track_def split: if_splits)
        then have p: "P (seen @ [selection r1]) (track cur (selection r1)) boundary sn r1 y"
          by (rule IH)
        have n': "find_next_range rng = (True, r1)" using n True by simp
        show ?thesis by (rule step[OF n' ne ncr p])
      qed
    qed
  qed
qed

lemma find_next_range_final_frame:
  assumes "scan_final rng"
  shows "size_required (snd (find_next_range rng)) = size_required rng"
proof -
  have o: "find_range_once rng = (False, rng\<lparr>previous_set_bit := (index rng + 1) * 64 - 1\<rparr>)"
    using assms by (simp add: find_range_once_def scan_final_def)
  show ?thesis
    using find_next_range_none_end[OF o] assms by (simp add: scan_final_def)
qed

lemma candidates_ok_found:
  assumes n: "find_next_range rng = (True, r1)"
    and st: "scan_final rng \<or> scan_valid rng \<and> scan_inv L rng"
    and old: "\<forall>c\<in>set seen. unat (position c) < L \<and>
            unat (size_required rng) \<le> unat (size_available c)"
    and so: "sorted_wrt (\<lambda>a b. position a < position b) seen"
  shows "size_required r1 = size_required rng"
    and "sorted_wrt (\<lambda>a b. position a < position b) (seen @ [selection r1])"
    and "\<forall>c\<in>set (seen @ [selection r1]).
           unat (position c) < unat (position (selection r1)) + 1 \<and>
           unat (size_required r1) \<le> unat (size_available c)"
    and "scan_final r1 \<or> scan_valid r1 \<and> scan_inv (unat (position (selection r1)) + 1) r1"
proof -
  have "\<not> scan_final rng" using find_next_range_final[of rng] n by auto
  then have v: "scan_valid rng" and inv: "scan_inv L rng" using st by auto
  note sp = find_next_range_spec[OF v inv n]
  have lt: "\<forall>c\<in>set seen. position c < position (selection r1)"
    using old sp by (auto simp: word_less_nat_alt)
  show "size_required r1 = size_required rng" using sp by simp
  show "sorted_wrt (\<lambda>a b. position a < position b) (seen @ [selection r1])"
    using so lt by (simp add: sorted_wrt_append)
  show "\<forall>c\<in>set (seen @ [selection r1]).
           unat (position c) < unat (position (selection r1)) + 1 \<and>
           unat (size_required r1) \<le> unat (size_available c)"
    using old sp by auto
  show "scan_final r1 \<or> scan_valid r1 \<and> scan_inv (unat (position (selection r1)) + 1) r1"
    using sp by simp
qed

lemma candidates_ok_stop:
  assumes n: "find_next_range rng = (True, r1)"
    and y: "size_required (fst (snd y)) = size_required r1"
      "snd (snd y) = seen @ [selection r1]"
  shows "candidates_ok seen rng y"
  unfolding candidates_ok_def
proof (intro allI impI)
  fix L
  assume st: "scan_final rng \<or> scan_valid rng \<and> scan_inv L rng"
    and old: "\<forall>c\<in>set seen. unat (position c) < L \<and>
            unat (size_required rng) \<le> unat (size_available c)"
    and so: "sorted_wrt (\<lambda>a b. position a < position b) seen"
  note f = candidates_ok_found[OF n st old so]
  show "size_required (fst (snd y)) = size_required rng \<and>
        sorted_wrt (\<lambda>a b. position a < position b) (snd (snd y)) \<and>
        (\<forall>c\<in>set (snd (snd y)). unat (size_required rng) \<le> unat (size_available c))"
    using f(1,2,3) y by simp
qed

lemma seen_loop_candidates:
  assumes run: "find_smallest_nearby_range_seen_loop seen cur boundary sn rng = Some y"
  shows "candidates_ok seen rng y"
  using run
proof (rule seen_loop_induct[where P = "\<lambda>seen cur boundary sn rng y. candidates_ok seen rng y"])
  fix seen cur boundary sn rng r1
  assume n: "find_next_range rng = (False, r1)"
  have "size_required r1 = size_required rng"
    if "scan_final rng \<or> scan_valid rng \<and> scan_inv L rng" for L
    using that find_next_range_final_frame[of rng] find_next_range_spec[OF _ _ n, of L] n
    by auto
  then show "candidates_ok seen rng (size_available cur \<noteq> SIZE_MAX, r1\<lparr>selection := cur\<rparr>, seen)"
    unfolding candidates_ok_def by auto
next
  fix seen cur boundary sn rng r1
  assume n: "find_next_range rng = (True, r1)"
  show "candidates_ok seen rng (True, r1, seen @ [selection r1])"
    by (rule candidates_ok_stop[OF n]) simp_all
next
  fix seen cur boundary sn rng r1
  assume n: "find_next_range rng = (True, r1)"
  show "candidates_ok seen rng
         (True,
          if size_available (track cur (selection r1)) < size_available (selection r1)
          then r1\<lparr>selection := track cur (selection r1)\<rparr> else r1,
          seen @ [selection r1])"
    by (rule candidates_ok_stop[OF n]) simp_all
next
  fix seen cur boundary sn rng r1 y
  assume n: "find_next_range rng = (True, r1)"
    and IH: "candidates_ok (seen @ [selection r1]) r1 y"
  show "candidates_ok seen rng y"
    unfolding candidates_ok_def
  proof (intro allI impI)
    fix L
    assume st: "scan_final rng \<or> scan_valid rng \<and> scan_inv L rng"
      and old: "\<forall>c\<in>set seen. unat (position c) < L \<and>
            unat (size_required rng) \<le> unat (size_available c)"
      and so: "sorted_wrt (\<lambda>a b. position a < position b) seen"
    note f = candidates_ok_found[OF n st old so]
    have "size_required (fst (snd y)) = size_required r1 \<and>
        sorted_wrt (\<lambda>a b. position a < position b) (snd (snd y)) \<and>
        (\<forall>c\<in>set (snd (snd y)). unat (size_required r1) \<le> unat (size_available c))"
      using IH[unfolded candidates_ok_def, rule_format, OF f(4) _ f(2)] f(3) by blast
    then show "size_required (fst (snd y)) = size_required rng \<and>
        sorted_wrt (\<lambda>a b. position a < position b) (snd (snd y)) \<and>
        (\<forall>c\<in>set (snd (snd y)). unat (size_required rng) \<le> unat (size_available c))"
      using f(1) by simp
  qed
qed

lemma seen_loop_outcome:
  assumes run: "find_smallest_nearby_range_seen_loop seen cur boundary sn rng = Some y"
  shows "loop_outcome seen cur boundary sn y"
  using run
proof (rule seen_loop_induct[where P = "\<lambda>seen cur boundary sn rng y. loop_outcome seen cur boundary sn y"])
  fix seen cur boundary sn and r1 :: range_finder
  show "loop_outcome seen cur boundary sn
          (size_available cur \<noteq> SIZE_MAX, r1\<lparr>selection := cur\<rparr>, seen)"
    unfolding loop_outcome_def by (intro exI[of _ "[]"]) simp
next
  fix seen cur boundary sn and r1 :: range_finder
  assume "size_required r1 = size_available (selection r1)"
  then show "loop_outcome seen cur boundary sn (True, r1, seen @ [selection r1])"
    unfolding loop_outcome_def by (intro exI[of _ "[selection r1]"]) simp
next
  fix seen cur boundary sn and r1 :: range_finder
  assume "sn" "boundary < position (selection r1)"
  then show "loop_outcome seen cur boundary sn
         (True,
          if size_available (track cur (selection r1)) < size_available (selection r1)
          then r1\<lparr>selection := track cur (selection r1)\<rparr> else r1,
          seen @ [selection r1])"
    unfolding loop_outcome_def by (intro exI[of _ "[selection r1]"]) simp
next
  fix seen cur boundary sn y and r1 :: range_finder
  assume nc: "\<not> (sn \<and> boundary < position (selection r1))"
    and IH: "loop_outcome (seen @ [selection r1]) (track cur (selection r1)) boundary sn y"
  obtain new where new: "snd (snd y) = (seen @ [selection r1]) @ new"
    and cases: "new \<noteq> [] \<and> size_required (fst (snd y)) = size_available (last new)
         \<or> new \<noteq> [] \<and> sn \<and> boundary < position (last new) \<and>
           selection (fst (snd y)) =
             (if size_available (foldl track (track cur (selection r1)) new)
                 < size_available (last new)
              then foldl track (track cur (selection r1)) new else last new)
         \<or> selection (fst (snd y)) = foldl track (track cur (selection r1)) new \<and>
           fst y = (size_available (foldl track (track cur (selection r1)) new) \<noteq> SIZE_MAX) \<and>
           (sn \<longrightarrow> (\<forall>c\<in>set new. \<not> boundary < position c))"
    using IH unfolding loop_outcome_def by blast
  show "loop_outcome seen cur boundary sn y"
    unfolding loop_outcome_def
  proof (intro exI[of _ "selection r1 # new"] conjI)
    show "snd (snd y) = seen @ selection r1 # new" using new by simp
    show "selection r1 # new \<noteq> [] \<and>
          size_required (fst (snd y)) = size_available (last (selection r1 # new))
       \<or> selection r1 # new \<noteq> [] \<and> sn \<and> boundary < position (last (selection r1 # new)) \<and>
          selection (fst (snd y)) =
            (if size_available (foldl track cur (selection r1 # new))
                < size_available (last (selection r1 # new))
             then foldl track cur (selection r1 # new) else last (selection r1 # new))
       \<or> selection (fst (snd y)) = foldl track cur (selection r1 # new) \<and>
          fst y = (size_available (foldl track cur (selection r1 # new)) \<noteq> SIZE_MAX) \<and>
          (sn \<longrightarrow> (\<forall>c\<in>set (selection r1 # new). \<not> boundary < position c))"
      using cases nc by (cases "new = []") auto
  qed
qed

lemma foldl_track_min:
  "size_available (foldl track cur xs) \<le> size_available cur \<and>
   (\<forall>c\<in>set xs. size_available (foldl track cur xs) \<le> size_available c) \<and>
   (foldl track cur xs = cur \<or>
    (\<exists>ys zs. xs = ys @ foldl track cur xs # zs \<and>
       (\<forall>c\<in>set ys. size_available (foldl track cur xs) < size_available c)))"
proof (induction xs rule: rev_induct)
  case Nil
  show ?case by simp
next
  case (snoc x xs)
  define m where "m = foldl track cur xs"
  have IH: "size_available m \<le> size_available cur"
    "\<forall>c\<in>set xs. size_available m \<le> size_available c"
    "m = cur \<or> (\<exists>ys zs. xs = ys @ m # zs \<and> (\<forall>c\<in>set ys. size_available m < size_available c))"
    using snoc.IH by (simp_all add: m_def)
  have f: "foldl track cur (xs @ [x]) = track m x" by (simp add: m_def)
  show ?case
  proof (cases "size_available x < size_available m")
    case True
    then have t: "track m x = x" by (simp add: track_def)
    have "\<forall>c\<in>set xs. size_available x < size_available c" using True IH(2) by auto
    then have "\<exists>ys zs. xs @ [x] = ys @ x # zs \<and> (\<forall>c\<in>set ys. size_available x < size_available c)"
      by (intro exI[of _ xs] exI[of _ "[]"]) simp
    then show ?thesis unfolding f t using True IH(1,2) by auto
  next
    case False
    then have t: "track m x = m" by (simp add: track_def)
    have "m = cur \<or> (\<exists>ys zs. xs @ [x] = ys @ m # zs \<and>
             (\<forall>c\<in>set ys. size_available m < size_available c))"
      using IH(3) by (metis append_Cons append_assoc)
    then show ?thesis unfolding f t using False IH(1,2) by auto
  qed
qed

lemma seen_loop_erase:
  assumes run: "find_smallest_nearby_range_seen_loop seen cur boundary sn rng = Some y"
  shows "find_smallest_nearby_range_loop cur boundary sn rng = Some (fst y, fst (snd y))"
  using run
proof (rule seen_loop_induct[where P = "\<lambda>seen cur boundary sn rng y.
         find_smallest_nearby_range_loop cur boundary sn rng = Some (fst y, fst (snd y))"])
  fix seen cur boundary sn rng r1
  assume "find_next_range rng = (False, r1)"
  then show "find_smallest_nearby_range_loop cur boundary sn rng =
     Some (fst (size_available cur \<noteq> SIZE_MAX, r1\<lparr>selection := cur\<rparr>, seen),
           fst (snd (size_available cur \<noteq> SIZE_MAX, r1\<lparr>selection := cur\<rparr>, seen)))"
    by (subst find_smallest_nearby_range_loop.simps) simp
next
  fix seen :: "selected_range list" and cur boundary sn rng r1
  assume "find_next_range rng = (True, r1)"
    "size_required r1 = size_available (selection r1)"
  then show "find_smallest_nearby_range_loop cur boundary sn rng =
     Some (fst (True, r1, seen @ [selection r1]), fst (snd (True, r1, seen @ [selection r1])))"
    by (subst find_smallest_nearby_range_loop.simps) simp
next
  fix seen :: "selected_range list" and cur boundary sn rng r1
  assume "find_next_range rng = (True, r1)"
    "size_required r1 \<noteq> size_available (selection r1)"
    "sn" "boundary < position (selection r1)"
  then show "find_smallest_nearby_range_loop cur boundary sn rng =
     Some (fst (True,
          if size_available (track cur (selection r1)) < size_available (selection r1)
          then r1\<lparr>selection := track cur (selection r1)\<rparr> else r1,
          seen @ [selection r1]),
        fst (snd (True,
          if size_available (track cur (selection r1)) < size_available (selection r1)
          then r1\<lparr>selection := track cur (selection r1)\<rparr> else r1,
          seen @ [selection r1])))"
    by (subst find_smallest_nearby_range_loop.simps) (simp add: Let_def track_def)
next
  fix seen :: "selected_range list" and cur boundary sn rng r1 y
  assume "find_next_range rng = (True, r1)"
    "size_required r1 \<noteq> size_available (selection r1)"
    "\<not> (sn \<and> boundary < position (selection r1))"
    "find_smallest_nearby_range_loop (track cur (selection r1)) boundary sn r1 =
       Some (fst y, fst (snd y))"
  then show "find_smallest_nearby_range_loop cur boundary sn rng = Some (fst y, fst (snd y))"
    by (subst find_smallest_nearby_range_loop.simps) (auto simp: Let_def track_def)
qed

section \<open>Concrete lookups\<close>

text \<open>
  C6: the three worked lookups of the chapter. A 16-page file keeps the record of page 5 in
  slot 5 of page 15; a 10 GiB file (1310720 pages) keeps the record of page 35225 in slot
  409 of page 1046596 and the record of page 1189786 in slot 410 of page 1310483.
\<close>

theorem metadata_lookup_scenarios:
  "get_metadata_page_offset 16 5 = Inr (15, 5) \<and>
   get_metadata_page_offset 1310720 35225 = Inr (1046596, 409) \<and>
   get_metadata_page_offset 1310720 1189786 = Inr (1310483, 410)"
  by (simp add: get_metadata_page_offset_def metadata_consts Let_def)

text \<open>
  C2: a file of exactly \<open>2^20\<close> pages (one whole range, so \<open>range_end = total_pages\<close>).
  The comparison in the source is strict, the lookup takes the trailing-range branch with a
  remainder of zero pages, and the metadata page it answers for page 0 is page \<open>2^20\<close>:
  the first page past the end of the file, not \<open>2^20 - 2048 = 1046528\<close>.
\<close>

theorem metadata_lookup_full_last_range:
  "get_metadata_page_offset 1048576 0 = Inr (1048576, 0)"
  by (simp add: get_metadata_page_offset_def metadata_consts Let_def)

section \<open>Overflow runs and their metadata\<close>

lemma get_page_metadata_after_loop:
  assumes "allocate_page_loop pos n s 0 tx = (None, tx')"
    "unat (number_of_pages tx) * 8192 < 2 ^ 64" "j < n"
  shows "get_page_metadata tx' (pos + j) = Inr (written_record n s j)"
proof -
  have inv: "number_of_pages tx' = number_of_pages tx"
    "\<forall>j. 0 \<le> j \<and> j < n \<longrightarrow>
       pos + j < number_of_pages tx \<and>
       (\<exists>sl. get_metadata_page_offset (number_of_pages tx) (pos + j) = Inr sl \<and>
             fst sl < number_of_pages tx \<and>
             metadata tx' sl = written_record n s j)"
    using allocate_page_loop_inv[OF refl assms(1,2)] by blast+
  obtain sl where sl: "get_metadata_page_offset (number_of_pages tx) (pos + j) = Inr sl"
      "fst sl < number_of_pages tx" "metadata tx' sl = written_record n s j"
    using inv(2) assms(3) by auto
  then show ?thesis
    by (cases sl) (simp add: get_page_metadata_def get_page_def inv(1))
qed

lemma rest_size_nat:
  fixes s :: "32 word" and j n :: "64 word"
  assumes "unat n = (unat s + 8191) div 8192" "j < n"
  shows "unat j * 8192 < unat s"
    and "unat (ucast (ucast s - j * PAGE_SIZE :: 64 word) :: 32 word) = unat s - unat j * 8192"
proof -
  define q r where "q = (unat s + 8191) div 8192" and "r = (unat s + 8191) mod 8192"
  have a: "unat s + 8191 = q * 8192 + r" and r: "r < 8192" by (simp_all add: q_def r_def)
  have "unat j < q" using assms by (simp add: word_less_nat_alt q_def)
  then have "unat j + 1 \<le> q" by simp
  then have "(unat j + 1) * 8192 \<le> q * 8192" by (rule mult_le_mono1)
  then show lt: "unat j * 8192 < unat s" using a r by simp
  have s32: "unat s < 2 ^ 32" using unsigned_less[of s] by simp
  have s64: "unat s < 2 ^ 64" using s32 by simp
  have us: "unat (ucast s :: 64 word) = unat s"
    using s64 by (simp add: unsigned_ucast_eq take_bit_nat_eq_self)
  have "unat j * unat (8192 :: 64 word) < 2 ^ 64" using lt s32 by simp
  then have uj: "unat (j * 8192) = unat j * 8192"
    using unat_mult_lem[of j "8192 :: 64 word"] by simp
  have "unat (j * 8192) \<le> unat (ucast s :: 64 word)" using lt us uj by simp
  then have "unat (ucast s - j * 8192 :: 64 word) = unat (ucast s :: 64 word) - unat (j * 8192)"
    by (simp add: unat_sub word_le_nat_alt)
  then have d: "unat (ucast s - j * 8192 :: 64 word) = unat s - unat j * 8192"
    by (simp only: us uj)
  have "unat (ucast (ucast s - j * 8192 :: 64 word) :: 32 word) = unat s - unat j * 8192"
    unfolding unsigned_ucast_eq d using s32 by (simp add: take_bit_nat_eq_self)
  then show "unat (ucast (ucast s - j * PAGE_SIZE :: 64 word) :: 32 word) = unat s - unat j * 8192"
    by (simp add: PAGE_SIZE_def)
qed

lemma allocate_page_loop_busy:
  assumes "unat n - unat j0 = k"
    "allocate_page_loop pos n s j0 tx = (None, tx')"
  shows "busy tx' q \<longleftrightarrow> busy tx q \<or> (\<exists>j. j0 \<le> j \<and> j < n \<and> q = pos + j)"
  using assms
proof (induction k arbitrary: j0 tx)
  case 0
  then have nl: "\<not> j0 < n" by (simp add: word_less_nat_alt)
  then have "tx' = tx" using "0.prems"(2) by (simp add: allocate_page_loop.simps)
  moreover have "\<not> (\<exists>j. j0 \<le> j \<and> j < n \<and> q = pos + j)" using nl by auto
  ultimately show ?case by blast
next
  case (Suc k)
  then have lt: "j0 < n" by (simp add: word_less_nat_alt)
  obtain slot where
    slot: "modify_page_metadata (tx\<lparr>busy := (busy tx)(pos + j0 := True)\<rparr>) (pos + j0) = Inr slot"
    using Suc.prems(2) lt
    by (subst (asm) allocate_page_loop.simps)
       (auto simp: mark_page_as_busy_def split: sum.splits)
  define tx2 where
    "tx2 = tx\<lparr>busy := (busy tx)(pos + j0 := True),
              metadata := (metadata tx)(slot := written_record n s j0)\<rparr>"
  have rec: "allocate_page_loop pos n s (j0 + 1) tx2 = (None, tx')"
    using Suc.prems(2) allocate_page_loop_step[OF lt slot, of s] by (simp add: tx2_def)
  have m: "unat n - unat (j0 + 1) = k"
    using Suc.prems(1) unat_succ_less[OF lt] by simp
  have IH: "busy tx' q \<longleftrightarrow> busy tx2 q \<or> (\<exists>j. j0 + 1 \<le> j \<and> j < n \<and> q = pos + j)"
    by (rule Suc.IH[OF m rec])
  have b2: "busy tx2 q \<longleftrightarrow> busy tx q \<or> q = pos + j0" by (auto simp: tx2_def)
  have sp: "j0 \<le> j \<longleftrightarrow> j = j0 \<or> j0 + 1 \<le> j" for j
    unfolding word_succ_le_iff[OF lt] by auto
  have "(\<exists>j. j0 \<le> j \<and> j < n \<and> q = pos + j) \<longleftrightarrow>
        q = pos + j0 \<or> (\<exists>j. j0 + 1 \<le> j \<and> j < n \<and> q = pos + j)"
    unfolding sp using lt by blast
  then show ?case unfolding IH b2 by blast
qed

lemma get_page_metadata_loop_frame:
  assumes run: "allocate_page_loop pos n s 0 tx = (None, tx')"
    and fits: "unat (number_of_pages tx) * 8192 < 2 ^ 64"
    and out: "\<forall>j. j < n \<longrightarrow> q \<noteq> pos + j"
  shows "get_page_metadata tx' q = get_page_metadata tx q"
proof -
  have inv: "number_of_pages tx' = number_of_pages tx"
    "\<forall>j. 0 \<le> j \<and> j < n \<longrightarrow>
       pos + j < number_of_pages tx \<and>
       (\<exists>sl. get_metadata_page_offset (number_of_pages tx) (pos + j) = Inr sl \<and>
             fst sl < number_of_pages tx \<and>
             metadata tx' sl = written_record n s j)"
    "\<forall>sl. (\<forall>j. 0 \<le> j \<and> j < n \<longrightarrow>
              get_metadata_page_offset (number_of_pages tx) (pos + j) \<noteq> Inr sl) \<longrightarrow>
          metadata tx' sl = metadata tx sl"
    using allocate_page_loop_inv[OF refl run fits] by blast+
  show ?thesis
  proof (cases "get_metadata_page_offset (number_of_pages tx) q")
    case (Inl e)
    then show ?thesis using inv(1) by (simp add: get_page_metadata_def)
  next
    case (Inr sl)
    have q: "q < number_of_pages tx"
      using Inr by (auto simp: get_metadata_page_offset_def split: if_splits)
    have "get_metadata_page_offset (number_of_pages tx) (pos + j) \<noteq> Inr sl" if "j < n" for j
    proof
      assume e: "get_metadata_page_offset (number_of_pages tx) (pos + j) = Inr sl"
      have "pos + j < number_of_pages tx" using inv(2) that by simp
      then have "pos + j = q" using gmpo_inj[OF _ q fits] e Inr by simp
      then show False using out that by auto
    qed
    then have "metadata tx' sl = metadata tx sl" using inv(3) by blast
    then show ?thesis
      using Inr inv(1) by (cases sl) (simp add: get_page_metadata_def get_page_def)
  qed
qed

lemma word_less_two:
  fixes j :: "64 word"
  shows "j < 2 \<longleftrightarrow> j = 0 \<or> j = 1"
proof
  assume "j < 2"
  then have "unat j < 2" by (simp add: word_less_nat_alt)
  then have "unat j = unat (0 :: 64 word) \<or> unat j = unat (1 :: 64 word)" by auto
  then show "j = 0 \<or> j = 1" by (simp only: word_unat_eq_iff)
qed auto

text \<open>
  C7: when the loop of \<^verbatim>\<open>allocate_page\<close> succeeds for a value of \<open>s\<close> bytes that needs
  \<open>n = ceil(s / 8192) \<ge> 2\<close> pages (the loop's bound \<^verbatim>\<open>required_size\<close>) from page \<open>pos\<close>
  on, in a file whose byte length fits 64 bits, the record of page \<open>pos\<close> reads \<open>overflow_first\<close> with size \<open>s\<close>, and the record of
  every page \<open>pos + j\<close>, \<open>1 \<le> j < n\<close>, reads \<open>overflow_rest\<close> with size \<open>s - j * 8192\<close>.
  The pages \<open>pos, ..., pos + n - 1\<close> are the only ones the loop marks busy and the only ones
  whose record it writes; the page count is left alone. For \<open>s = 8193\<close> these are exactly
  the two pages \<open>pos\<close> and \<open>pos + 1\<close>, the second with size 1.
\<close>

theorem allocate_page_overflow_metadata:
  assumes "allocate_page_loop pos n s 0 tx = (None, tx')"
    and "unat (number_of_pages tx) * 8192 < 2 ^ 64"
    and "unat n = (unat s + 8191) div 8192"
    and "2 \<le> unat n"
  shows "get_page_metadata tx' pos = Inr \<lparr>overflow_size = s, flags = page_overflow_first\<rparr> \<and>
    (\<forall>j. 0 < j \<and> j < n \<longrightarrow>
       (\<exists>md. get_page_metadata tx' (pos + j) = Inr md \<and>
             flags md = page_overflow_rest \<and>
             unat j * 8192 < unat s \<and>
             unat (overflow_size md) = unat s - unat j * 8192)) \<and>
    number_of_pages tx' = number_of_pages tx \<and>
    (\<forall>q. busy tx' q \<longleftrightarrow> busy tx q \<or> (\<exists>j. j < n \<and> q = pos + j)) \<and>
    (\<forall>q. (\<forall>j. j < n \<longrightarrow> q \<noteq> pos + j) \<longrightarrow>
         get_page_metadata tx' q = get_page_metadata tx q) \<and>
    (s = 8193 \<longrightarrow> n = 2 \<and>
       get_page_metadata tx' (pos + 1) =
         Inr \<lparr>overflow_size = 1, flags = page_overflow_rest\<rparr> \<and>
       (\<forall>q. busy tx' q \<longleftrightarrow> busy tx q \<or> q = pos \<or> q = pos + 1) \<and>
       (\<forall>q. q \<noteq> pos \<and> q \<noteq> pos + 1 \<longrightarrow>
            get_page_metadata tx' q = get_page_metadata tx q))"
proof -
  have n1: "n \<noteq> 1" using assms(4) by auto
  have n0: "0 < n" using assms(4) by (simp add: word_less_nat_alt)
  have first: "get_page_metadata tx' pos =
      Inr \<lparr>overflow_size = s, flags = page_overflow_first\<rparr>"
    using get_page_metadata_after_loop[OF assms(1,2) n0] n1
    by (simp add: written_record_def)
  have rest: "\<exists>md. get_page_metadata tx' (pos + j) = Inr md \<and>
             flags md = page_overflow_rest \<and>
             unat j * 8192 < unat s \<and>
             unat (overflow_size md) = unat s - unat j * 8192"
    if j: "0 < j \<and> j < n" for j
  proof -
    have j0: "j \<noteq> 0" using j by auto
    have "get_page_metadata tx' (pos + j) = Inr (written_record n s j)"
      using get_page_metadata_after_loop[OF assms(1,2)] j by simp
    then show ?thesis
      using rest_size_nat[OF assms(3), of j] j n1 j0
      by (simp add: written_record_def)
  qed
  have pages: "number_of_pages tx' = number_of_pages tx"
    using allocate_page_loop_inv[OF refl assms(1,2)] by blast
  have marked: "busy tx' q \<longleftrightarrow> busy tx q \<or> (\<exists>j. j < n \<and> q = pos + j)" for q
    using allocate_page_loop_busy[OF refl assms(1), of q] by simp
  have frame: "get_page_metadata tx' q = get_page_metadata tx q"
    if "\<forall>j. j < n \<longrightarrow> q \<noteq> pos + j" for q
    by (rule get_page_metadata_loop_frame[OF assms(1,2) that])
  have two: "n = 2 \<and>
       get_page_metadata tx' (pos + 1) =
         Inr \<lparr>overflow_size = 1, flags = page_overflow_rest\<rparr> \<and>
       (\<forall>q. busy tx' q \<longleftrightarrow> busy tx q \<or> q = pos \<or> q = pos + 1) \<and>
       (\<forall>q. q \<noteq> pos \<and> q \<noteq> pos + 1 \<longrightarrow>
            get_page_metadata tx' q = get_page_metadata tx q)"
    if s: "s = 8193"
  proof -
    have "unat n = 2" using assms(3) s by simp
    then have "unat n = unat (2 :: 64 word)" by simp
    then have n2: "n = 2" by (simp only: word_unat_eq_iff)
    have "get_page_metadata tx' (pos + 1) = Inr (written_record 2 8193 1)"
      using get_page_metadata_after_loop[OF assms(1,2), of 1] s n2 by simp
    then have second: "get_page_metadata tx' (pos + 1) =
        Inr \<lparr>overflow_size = 1, flags = page_overflow_rest\<rparr>"
      by (simp add: written_record_def PAGE_SIZE_def)
    have run: "(\<exists>j. j < n \<and> q = pos + j) \<longleftrightarrow> q = pos \<or> q = pos + 1" for q
      unfolding n2 word_less_two by auto
    have b: "\<forall>q. busy tx' q \<longleftrightarrow> busy tx q \<or> q = pos \<or> q = pos + 1"
      using marked run by simp
    have f: "\<forall>q. q \<noteq> pos \<and> q \<noteq> pos + 1 \<longrightarrow>
            get_page_metadata tx' q = get_page_metadata tx q"
    proof (intro allI impI)
      fix q assume "q \<noteq> pos \<and> q \<noteq> pos + 1"
      then have "\<forall>j. j < n \<longrightarrow> q \<noteq> pos + j" using run[of q] by blast
      then show "get_page_metadata tx' q = get_page_metadata tx q" by (rule frame)
    qed
    show ?thesis using n2 second b f by blast
  qed
  show ?thesis using first rest pages marked frame two by blast
qed


lemma txn16_overflow_allocated:
  "allocate_page_loop 3 2 8193 0 txn16 = (None, txn16_overflow)"
proof -
  have "fst (allocate_page_loop 3 2 8193 0 txn16) = None" by code_simp
  then show ?thesis by (simp add: txn16_overflow_def prod_eq_iff)
qed

lemma txn16_overflow_pages: "number_of_pages txn16_overflow = 16"
  using allocate_page_loop_inv[OF refl txn16_overflow_allocated]
  by (simp add: txn16_def)

lemma txn16_overflow_second_page:
  "get_page_metadata txn16_overflow 4 = Inr \<lparr>overflow_size = 1, flags = page_overflow_rest\<rparr>"
proof -
  have "unat (number_of_pages txn16) * 8192 < 2 ^ 64" by (simp add: txn16_def)
  then have "get_page_metadata txn16_overflow (3 + 1) = Inr (written_record 2 8193 1)"
    by (rule get_page_metadata_after_loop[OF txn16_overflow_allocated]) simp
  then show ?thesis by (simp add: written_record_def PAGE_SIZE_def)
qed

theorem allocate_page_overflow_metadata_witness:
  "allocate_page_loop 3 2 8193 0 txn16 = (None, txn16_overflow) \<and>
   unat (number_of_pages txn16) * 8192 < 2 ^ 64 \<and>
   unat (2 :: 64 word) = (unat (8193 :: 32 word) + 8191) div 8192 \<and>
   get_page_metadata txn16_overflow 3 =
     Inr \<lparr>overflow_size = 8193, flags = page_overflow_first\<rparr> \<and>
   get_page_metadata txn16_overflow (3 + 1) =
     Inr \<lparr>overflow_size = 1, flags = page_overflow_rest\<rparr> \<and>
   busy txn16_overflow 3 = True \<and> busy txn16_overflow 4 = True \<and>
   busy txn16_overflow 5 = False \<and>
   get_page_metadata txn16_overflow 5 = Inr zero_metadata"
proof -
  have h2: "unat (number_of_pages txn16) * 8192 < 2 ^ 64" by (simp add: txn16_def)
  have h3: "unat (2 :: 64 word) = (unat (8193 :: 32 word) + 8191) div 8192" by simp
  have h4: "2 \<le> unat (2 :: 64 word)" by simp
  have b: "busy txn16 q = False" for q by (simp add: txn16_def)
  have g: "get_page_metadata txn16 5 = Inr zero_metadata" by code_simp
  show ?thesis
    using allocate_page_overflow_metadata[OF txn16_overflow_allocated h2 h3 h4]
      txn16_overflow_allocated h2 h3 b g
    by simp
qed

section \<open>Freeing a page of an overflow run\<close>

text \<open>
  C5, as stated, fails: page 4 of the example is the second page of an overflow run and
  its record reads \<open>overflow_rest\<close>. \<^verbatim>\<open>free_page\<close> zeroes the record before the elided
  body runs and never looks at the flags: when that body succeeds without touching
  anything, \<^verbatim>\<open>free_page\<close> reports no error; and even when that body rejects the page
  without touching anything, the record of page 4 has been zeroed, so the metadata records
  are not as they were.
\<close>

theorem free_page_overflow_rest_record_zeroed:
  "get_page_metadata txn16_overflow 4 =
     Inr \<lparr>overflow_size = 1, flags = page_overflow_rest\<rparr> \<and>
   fst (free_page (\<lambda>tx p. (None, tx)) txn16_overflow 4) = None \<and>
   fst (free_page (\<lambda>tx p. (Some EINVAL, tx)) txn16_overflow 4) = Some EINVAL \<and>
   get_page_metadata (snd (free_page (\<lambda>tx p. (Some EINVAL, tx)) txn16_overflow 4)) 4 =
     Inr zero_metadata"
proof -
  have "fst (free_page (\<lambda>tx p. (None, tx)) txn16_overflow 4) = None \<and>
        fst (free_page (\<lambda>tx p. (Some EINVAL, tx)) txn16_overflow 4) = Some EINVAL \<and>
        get_page_metadata (snd (free_page (\<lambda>tx p. (Some EINVAL, tx)) txn16_overflow 4)) 4 =
          Inr zero_metadata"
    by code_simp
  then show ?thesis using txn16_overflow_second_page by simp
qed

lemma get_page_metadata_frame:
  assumes "number_of_pages tx' = number_of_pages tx"
    "unat (number_of_pages tx) * 8192 < 2 ^ 64"
    "get_metadata_page_offset (number_of_pages tx) p = Inr slot"
    "metadata tx' = (metadata tx)(slot := md)"
    "q \<noteq> p"
  shows "get_page_metadata tx' q = get_page_metadata tx q"
proof (cases "get_metadata_page_offset (number_of_pages tx) q")
  case (Inl e)
  then show ?thesis using assms(1) by (simp add: get_page_metadata_def)
next
  case (Inr sl)
  have p: "p < number_of_pages tx"
    using assms(3) by (auto simp: get_metadata_page_offset_def split: if_splits)
  have q: "q < number_of_pages tx"
    using Inr by (auto simp: get_metadata_page_offset_def split: if_splits)
  have "sl \<noteq> slot"
    using gmpo_inj[OF q p assms(2)] Inr assms(3,5) by auto
  then show ?thesis
    using Inr assms(1,4)
    by (cases sl) (simp add: get_page_metadata_def get_page_def)
qed

text \<open>
  C5, amended: \<^verbatim>\<open>free_page\<close> makes no check of the flags and raises no invalid-state
  error of its own. On a page whose record reads \<open>overflow_rest\<close> (in a file whose byte
  length fits 64 bits) it zeroes that page's record, leaving the record of every other
  page, the bitmap and the page count as they were, and then runs the body that the
  listing elides on that state; whatever that body answers is the answer of
  \<^verbatim>\<open>free_page\<close>.
\<close>

theorem free_page_overflow_rest_zeroes_record:
  assumes "get_page_metadata tx page_num = Inr md"
    and "flags md = page_overflow_rest"
    and "unat (number_of_pages tx) * 8192 < 2 ^ 64"
  shows "\<exists>slot tx'. get_metadata_page_offset (number_of_pages tx) page_num = Inr slot \<and>
           tx' = tx\<lparr>metadata := (metadata tx)(slot := zero_metadata)\<rparr> \<and>
           free_page rest tx page_num = rest tx' page_num \<and>
           get_page_metadata tx' page_num = Inr zero_metadata \<and>
           (\<forall>q. q \<noteq> page_num \<longrightarrow> get_page_metadata tx' q = get_page_metadata tx q) \<and>
           busy tx' = busy tx \<and> number_of_pages tx' = number_of_pages tx"
proof -
  obtain slot where g: "get_metadata_page_offset (number_of_pages tx) page_num = Inr slot"
    and s: "fst slot < number_of_pages tx"
    using assms(1)
    by (auto simp: get_page_metadata_def get_page_def
        split: sum.splits prod.splits option.splits if_splits)
  define tx' where "tx' = tx\<lparr>metadata := (metadata tx)(slot := zero_metadata)\<rparr>"
  have m: "modify_page_metadata tx page_num = Inr slot"
    using g s by (cases slot) (simp add: modify_page_metadata_def modify_page_def)
  have f: "free_page rest tx page_num = rest tx' page_num"
    by (simp add: free_page_def m tx'_def Let_def)
  have own: "get_page_metadata tx' page_num = Inr zero_metadata"
    using g s by (cases slot) (simp add: get_page_metadata_def get_page_def tx'_def)
  have others: "get_page_metadata tx' q = get_page_metadata tx q" if "q \<noteq> page_num" for q
    by (rule get_page_metadata_frame[OF _ assms(3) g _ that, of _ zero_metadata])
       (simp_all add: tx'_def)
  have same: "busy tx' = busy tx" "number_of_pages tx' = number_of_pages tx"
    by (simp_all add: tx'_def)
  show ?thesis
    using g f own others same by (intro exI[of _ slot] exI[of _ tx']) (simp add: tx'_def)
qed

theorem free_page_overflow_rest_zeroes_record_witness:
  "get_page_metadata txn16_overflow (3 + 1) =
     Inr \<lparr>overflow_size = 1, flags = page_overflow_rest\<rparr> \<and>
   flags \<lparr>overflow_size = 1, flags = page_overflow_rest\<rparr> = page_overflow_rest \<and>
   unat (number_of_pages txn16_overflow) * 8192 < 2 ^ 64 \<and>
   (\<exists>tx'. free_page (\<lambda>tx p. (None, tx\<lparr>busy := (busy tx)(p := False)\<rparr>))
            txn16_overflow (3 + 1) = (None, tx'\<lparr>busy := (busy tx')(3 + 1 := False)\<rparr>) \<and>
          get_page_metadata tx' (3 + 1) = Inr zero_metadata \<and>
          busy tx' = busy txn16_overflow)"
proof -
  have h1: "get_page_metadata txn16_overflow (3 + 1) =
     Inr \<lparr>overflow_size = 1, flags = page_overflow_rest\<rparr>"
    using txn16_overflow_second_page by simp
  have h2: "flags \<lparr>overflow_size = 1, flags = page_overflow_rest\<rparr> = page_overflow_rest"
    by simp
  have h3: "unat (number_of_pages txn16_overflow) * 8192 < 2 ^ 64"
    by (simp add: txn16_overflow_pages)
  show ?thesis
    using free_page_overflow_rest_zeroes_record[OF h1 h2 h3,
        of "\<lambda>tx p. (None, tx\<lparr>busy := (busy tx)(p := False)\<rparr>)"] h1 h2 h3
    by blast
qed
section \<open>The free-range search on concrete bitmaps\<close>

text \<open>
  C1: three words, the first free, the second with bits 0 and 1 set (pages 64 and 65
  busy), the third with bit 0 set. Asked for one page near page 0, the search answers
  page 65, which is busy.
\<close>

theorem find_free_range_returns_busy_bit:
  "find_free_range_in_bitmap [0, 3, 1] 3 1 0 = Some (Some 65) \<and>
   bitmap_bit [0, 3, 1] 65"
  by code_simp

text \<open>
  C3: the first word is free, the other two are full, and the hint points into the third
  word. The forward scan finds nothing; the scan of the words below the hint meets the 64
  free bits of word 0, moves on to the full word 1 and reports failure.
\<close>

theorem backward_scan_misses_free_word:
  "find_free_range_in_bitmap [0, - 1, - 1] 3 1 128 = Some None \<and>
   \<not> bitmap_bit [0, - 1, - 1] 0"
  by code_simp

text \<open>
  C9: only bit 20 of the first word is set, the second word is full, the third is free, and
  the hint is page 0. The runs of at least 40 free pages are pages 21 to 63 (43 pages) and
  pages 128 to 191 (64 pages). The search answers page 128, not the smaller run at page 21.
\<close>

theorem whole_scan_misses_smallest_run:
  "find_free_range_in_bitmap [0x100000, - 1, 0] 3 40 0 = Some (Some 128) \<and>
   bitmap_bit [0x100000, - 1, 0] 20 \<and>
   list_all (\<lambda>p. \<not> bitmap_bit [0x100000, - 1, 0] p) [21..<64] \<and>
   bitmap_bit [0x100000, - 1, 0] 64"
  by code_simp

text \<open>
  C4, as stated, fails: the first word is full, the second has bits 0 and 6 set, the third
  bits 6 and 12, and three pages are wanted near page 64. Relative to the hint's word the
  scan tracks the candidates (1, 5 bits), (7, 63 bits) and (71, 5 bits); the third lies
  beyond the window (\<open>71 > 64 + 3\<close>) and is as large as the first. The search returns the
  third, page \<open>64 + 71 = 135\<close>, not the equally large earlier one at page 65.
\<close>

theorem crossing_tie_returns_later_candidate:
  "find_free_range_in_bitmap [- 1, 0x41, 0x1040] 3 3 64 = Some (Some 135) \<and>
   map_option (snd \<circ> snd)
     (find_smallest_nearby_range_seen (init_range [0x41, 0x1040] 2 3 range_uninit) True) =
   Some [\<lparr>position = 1, size_available = 5\<rparr>,
         \<lparr>position = 7, size_available = 63\<rparr>,
         \<lparr>position = 71, size_available = 5\<rparr>]"
  by code_simp

section \<open>What the search returns once it is past the locality window\<close>

text \<open>
  C4, amended. Let the locality search be active (\<open>near_pos \<ge> 64\<close>), the arguments valid
  (a non-empty request inside the bitmap, bit positions plus the requested size within 64
  bits), and let the scan end on a candidate that is not an exact fit and lies beyond the
  window (its position, counted from the word of \<open>near_pos\<close>, exceeds \<open>64 + size_required\<close>).
  Then the search returns one of the candidates tracked so far; all of them are sufficient
  and none is smaller than the returned one. If the candidate that crossed the window is
  itself of the smallest size it is the one returned (also when an earlier candidate is as
  small); otherwise the returned candidate has the lowest position among the smallest.
\<close>

theorem crossing_returns_smallest_tracked:
  assumes req: "sz_required \<noteq> 0"
    and near: "64 \<le> near_pos" "near_pos div 64 < bm_size"
    and fits: "unat bm_size * 64 + unat sz_required < 2 ^ 64"
    and run: "find_smallest_nearby_range_seen
                (init_range (drop (unat (near_pos div 64)) bm) (bm_size - near_pos div 64)
                   sz_required range_uninit) True = Some (True, rng', seen)"
    and noexact: "size_available (last seen) \<noteq> sz_required"
    and crossed: "MAX_DISTANCE_TO_SEARCH_BEST_MATCH + sz_required < position (last seen)"
  shows "find_free_range_in_bitmap bm bm_size sz_required near_pos =
           Some (Some (position (selection rng') + near_pos div 64 * 64)) \<and>
         selection rng' \<in> set seen \<and>
         (\<forall>c\<in>set seen. sz_required \<le> size_available c \<and>
                        size_available (selection rng') \<le> size_available c) \<and>
         (size_available (last seen) = size_available (selection rng') \<longrightarrow>
            selection rng' = last seen) \<and>
         (size_available (last seen) \<noteq> size_available (selection rng') \<longrightarrow>
            (\<forall>c\<in>set seen. size_available c = size_available (selection rng') \<longrightarrow>
                           position (selection rng') \<le> position c))"
proof -
  define high where "high = near_pos div 64"
  define rng0 where
    "rng0 = init_range (drop (unat high) bm) (bm_size - high) sz_required range_uninit"
  define cur0 where "cur0 = \<lparr>position = 0, size_available = SIZE_MAX\<rparr>"
  define boundary where "boundary = MAX_DISTANCE_TO_SEARCH_BEST_MATCH + sz_required"
  define best where "best = foldl track cur0 seen"
  define y where "y = (True, rng', seen)"
  have f0: "size_required rng0 = sz_required" "index rng0 = 0"
    "bitmap_size rng0 = bm_size - high" "previous_set_bit rng0 = - 1"
    by (simp_all add: rng0_def init_range_def ULONG_MAX_def)
  have loop: "find_smallest_nearby_range_seen_loop [] cur0 boundary True rng0 = Some y"
    using run
    by (simp add: find_smallest_nearby_range_seen_def Let_def rng0_def[symmetric]
          high_def[symmetric] f0 cur0_def boundary_def y_def)
  have hb: "unat high < unat bm_size" using near(2) by (simp add: high_def word_less_nat_alt)
  have "unat high = unat near_pos div 64" by (simp add: high_def unat_div)
  moreover have "64 \<le> unat near_pos" using near(1) by (simp add: word_le_nat_alt)
  ultimately have "unat high \<noteq> 0" by simp
  then have h0: "high \<noteq> 0" by (metis unat_0)
  have ub: "unat (bm_size - high) = unat bm_size - unat high"
    by (rule unat_sub_small) (use hb in simp)
  have v0: "scan_valid rng0"
    unfolding scan_valid_def f0 ub using req hb fits by (simp add: word_less_nat_alt ub)
  have inv0: "scan_inv 0 rng0"
    by (simp add: scan_inv_def next_free_def f0)
  have cand: "size_required rng' = sz_required"
    "sorted_wrt (\<lambda>a b. position a < position b) seen"
    "\<forall>c\<in>set seen. unat sz_required \<le> unat (size_available c)"
    using seen_loop_candidates[OF loop, unfolded candidates_ok_def, rule_format, of 0] v0 inv0
    by (simp_all add: y_def f0)
  have out: "loop_outcome [] cur0 boundary True y" by (rule seen_loop_outcome[OF loop])
  have ne: "seen \<noteq> []"
    using out by (auto simp: loop_outcome_def y_def cur0_def)
  then have lastin: "last seen \<in> set seen" by simp
  have sel: "selection rng' =
      (if size_available best < size_available (last seen) then best else last seen)"
    using out noexact crossed cand(1) lastin
    by (auto simp: loop_outcome_def y_def boundary_def best_def)
  have m: "\<forall>c\<in>set seen. size_available best \<le> size_available c"
    "best = cur0 \<or> (\<exists>ys zs. seen = ys @ best # zs \<and>
         (\<forall>c\<in>set ys. size_available best < size_available c))"
    using foldl_track_min[of cur0 seen] by (simp_all add: best_def)
  have plain: "find_smallest_nearby_range rng0 True = Some (True, rng')"
    using seen_loop_erase[OF loop]
    by (simp add: find_smallest_nearby_range_def Let_def f0 cur0_def boundary_def y_def)
  have res: "find_free_range_in_bitmap bm bm_size sz_required near_pos =
           Some (Some (position (selection rng') + near_pos div 64 * 64))"
    using req near(2) plain h0
    by (simp add: find_free_range_in_bitmap_def Let_def not_le rng0_def high_def)
  have suff: "\<forall>c\<in>set seen. sz_required \<le> size_available c"
    using cand(3) by (simp add: word_le_nat_alt)
  show ?thesis
  proof (cases "size_available best < size_available (last seen)")
    case True
    then have s: "selection rng' = best" using sel by simp
    have "best \<noteq> cur0"
    proof
      assume "best = cur0"
      then have "size_available best = - 1" by (simp add: cur0_def SIZE_MAX_def)
      then show False using True by simp
    qed
    then obtain ys zs where d: "seen = ys @ best # zs"
      and ys: "\<forall>c\<in>set ys. size_available best < size_available c"
      using m(2) by blast
    have zs: "\<forall>c\<in>set zs. position best < position c"
      using cand(2) unfolding d by (simp add: sorted_wrt_append)
    have low: "position best \<le> position c"
      if "c \<in> set seen" "size_available c = size_available best" for c
    proof -
      have "c \<notin> set ys" using ys that(2) by auto
      then have "c = best \<or> c \<in> set zs" using that(1) d by auto
      then show ?thesis using zs by auto
    qed
    have "best \<in> set seen" using d by simp
    then show ?thesis using res s suff m(1) True low by auto
  next
    case False
    then have s: "selection rng' = last seen" using sel by simp
    have "size_available best \<le> size_available (last seen)" using m(1) lastin by blast
    then have "size_available best = size_available (last seen)" using False by simp
    then show ?thesis using res s suff m(1) lastin by auto
  qed
qed

theorem crossing_returns_smallest_tracked_witness:
  "(3 :: 64 word) \<noteq> 0 \<and> (64 :: 64 word) \<le> 64 \<and> (64 :: 64 word) div 64 < 3 \<and>
   unat (3 :: 64 word) * 64 + unat (3 :: 64 word) < 2 ^ 64 \<and>
   find_free_range_in_bitmap [- 1, 0x41, 0x2040] 3 3 64 = Some (Some 65) \<and>
   \<lparr>position = 1, size_available = 5\<rparr> \<in>
     set [\<lparr>position = 1, size_available = 5\<rparr>, \<lparr>position = 7, size_available = 63\<rparr>,
          \<lparr>position = 71, size_available = 6\<rparr>]"
proof -
  define R where "R = \<lparr>bitmap = [0x41, 0x2040], bitmap_size = 2, size_required = 3, index = 1,
      selection = \<lparr>position = 1, size_available = 5\<rparr>, current = 16383,
      current_set_bit = 77, previous_set_bit = 77\<rparr>"
  define S where "S = [\<lparr>position = 1, size_available = 5\<rparr>,
      \<lparr>position = 7, size_available = 63\<rparr>, \<lparr>position = 71, size_available = (6 :: 64 word)\<rparr>]"
  have h1: "(3 :: 64 word) \<noteq> 0" by simp
  have h2: "(64 :: 64 word) \<le> 64" by simp
  have h3: "(64 :: 64 word) div 64 < 3" by simp
  have h4: "unat (3 :: 64 word) * 64 + unat (3 :: 64 word) < 2 ^ 64" by simp
  have "find_smallest_nearby_range_seen
          (init_range (drop (unat ((64 :: 64 word) div 64)) [- 1, 0x41, 0x2040])
             (3 - 64 div 64) 3 range_uninit) True =
        Some (True,
          \<lparr>bitmap = [0x41, 0x2040], bitmap_size = 2, size_required = 3, index = 1,
            selection = \<lparr>position = 1, size_available = 5\<rparr>, current = 16383,
            current_set_bit = 77, previous_set_bit = 77\<rparr>,
          [\<lparr>position = 1, size_available = 5\<rparr>, \<lparr>position = 7, size_available = 63\<rparr>,
           \<lparr>position = 71, size_available = 6\<rparr>])"
    by code_simp
  then have h5: "find_smallest_nearby_range_seen
          (init_range (drop (unat ((64 :: 64 word) div 64)) [- 1, 0x41, 0x2040])
             (3 - 64 div 64) 3 range_uninit) True = Some (True, R, S)"
    by (simp only: R_def S_def)
  have h6: "size_available (last S) \<noteq> 3" by (simp add: S_def)
  have h7: "MAX_DISTANCE_TO_SEARCH_BEST_MATCH + 3 < position (last S)"
    by (simp add: S_def MAX_DISTANCE_TO_SEARCH_BEST_MATCH_def)
  show ?thesis
    using crossing_returns_smallest_tracked[OF h1 h2 h3 h4 h5 h6 h7] h1 h2 h3 h4
    by (simp add: R_def S_def)
qed

section \<open>The error channel and \<open>close_file\<close>\<close>

lemma push_error_internal_count:
  "\<not> MAX_ERRORS \<le> errors_count ch + 1 \<Longrightarrow>
   errors_count (push_error_internal code h m ch) = errors_count ch + 1"
  by (simp add: push_error_internal_def push_error_oom_def Let_def)

lemma push_error_internal_full:
  "MAX_ERRORS \<le> errors_count ch + 1 \<Longrightarrow>
   push_error_internal code h m ch = ch\<lparr>out_of_memory := out_of_memory ch OR 1\<rparr>"
  by (simp add: push_error_internal_def)

lemma push_count:
  "n \<le> 63 \<Longrightarrow> errors_count ((push_error_internal code h m ^^ n) errors_init) = of_nat n"
proof (induction n)
  case 0
  then show ?case by (simp add: errors_init_def)
next
  case (Suc n)
  define ch where "ch = (push_error_internal code h m ^^ n) errors_init"
  from Suc have IH: "errors_count ch = of_nat n"
    and n: "n < 63" by (simp_all add: ch_def)
  have "unat (of_nat (Suc n) :: 64 word) = Suc n"
    by (rule of_nat_inverse[OF refl]) (use n in simp)
  then have "unat (of_nat n + 1 :: 64 word) = n + 1"
    by (simp add: add.commute)
  then have "\<not> MAX_ERRORS \<le> errors_count ch + 1"
    using n IH by (simp add: MAX_ERRORS_def word_le_nat_alt)
  then have "errors_count (push_error_internal code h m ch) = errors_count ch + 1"
    by (rule push_error_internal_count)
  then show ?case using IH by (simp add: ch_def)
qed

text \<open>
  C8: after 63 pushes onto an empty channel 63 entries are recorded, and the next push,
  made while fewer than 64 entries are recorded, stores nothing: it only sets the overflow
  flag. The channel never holds 64 entries.
\<close>

theorem error_channel_drops_64th_push:
  "errors_count ((push_error_internal code h m ^^ 63) errors_init) = 63 \<and>
   push_error_internal code h m ((push_error_internal code h m ^^ 63) errors_init) =
     ((push_error_internal code h m ^^ 63) errors_init)
       \<lparr>out_of_memory :=
          out_of_memory ((push_error_internal code h m ^^ 63) errors_init) OR 1\<rparr>"
proof -
  define ch where "ch = (push_error_internal code h m ^^ 63) errors_init"
  have c: "errors_count ch = 63"
    using push_count[of 63 code h m] by (simp add: ch_def)
  then have "MAX_ERRORS \<le> errors_count ch + 1" by (simp add: MAX_ERRORS_def)
  then have "push_error_internal code h m ch = ch\<lparr>out_of_memory := out_of_memory ch OR 1\<rparr>"
    by (rule push_error_internal_full)
  with c show ?thesis unfolding ch_def by simp
qed

text \<open>
  C10: closing a null handle returns true and leaves the error channel as it was, whatever
  the system call would do.
\<close>

theorem close_file_null_handle:
  "close_file sys_close fmt None ch = (Some True, ch)"
  by (simp add: close_file_def)


end
